theory Spec2Isabelle
  imports Main "HOL-Library.Word"
begin

section \<open>Style configuration and C strings\<close>

text \<open>
  A C string is modelled by the list of its bytes before the terminator. Reading the byte
  at an offset gives the terminator at the offset \<open>length p\<close> (and, as a convention of the
  model, at every larger offset; the code never reads there). Pointers into a string are
  offsets of type \<open>nat\<close>; \<open>size_t\<close> values are \<open>nat\<close> as well: every length the code
  computes is bounded by the total size of the strings it is given, so no \<open>size_t\<close>
  arithmetic wraps. The \<open>int\<close> counters of the visibility resolver are unbounded
  integers: they are bounded by the number of segments of the input.
\<close>

datatype cwk_segment_type = CWK_NORMAL | CWK_CURRENT | CWK_BACK

datatype cwk_path_style = CWK_STYLE_WINDOWS | CWK_STYLE_UNIX

definition NUL :: char where
  "NUL = CHR 0x00"

definition BACKSLASH :: char where
  "BACKSLASH = CHR 0x5C"

definition char_at :: "string \<Rightarrow> nat \<Rightarrow> char" where
  "char_at p i = (if i < length p then p ! i else NUL)"

text \<open>The bytes of a string are those of a C string when none of them is the terminator.\<close>

definition c_string :: "string \<Rightarrow> bool" where
  "c_string p = (NUL \<notin> set p)"

fun separators :: "cwk_path_style \<Rightarrow> string" where
  "separators CWK_STYLE_WINDOWS = [BACKSLASH, CHR ''/'']"
| "separators CWK_STYLE_UNIX = [CHR ''/'']"

text \<open>\<open>is_separator\<close>: the loop over the separator string of the style.\<close>

fun is_separator_loop :: "string \<Rightarrow> char \<Rightarrow> bool" where
  "is_separator_loop [] ch = False"
| "is_separator_loop (c # cs) ch = (if c = ch then True else is_separator_loop cs ch)"

definition is_separator :: "cwk_path_style \<Rightarrow> char \<Rightarrow> bool" where
  "is_separator st ch = is_separator_loop (separators st) ch"

text \<open>\<open>find_next_stop\<close>: forward to the terminator or the next separator.\<close>

function find_next_stop :: "cwk_path_style \<Rightarrow> string \<Rightarrow> nat \<Rightarrow> nat" where
  "find_next_stop st p c =
     (if char_at p c \<noteq> NUL \<and> \<not> is_separator st (char_at p c)
      then find_next_stop st p (c + 1) else c)"
  by pat_completeness auto
termination
  by (relation "measure (\<lambda>(st, p, c). length p - c)") (auto simp: char_at_def split: if_splits)

declare find_next_stop.simps [simp del]

text \<open>\<open>find_previous_stop\<close>: backward to a separator or to \<open>begin\<close>.\<close>

function find_previous_stop :: "cwk_path_style \<Rightarrow> string \<Rightarrow> nat \<Rightarrow> nat \<Rightarrow> nat" where
  "find_previous_stop st p begin_ptr c =
     (if c > begin_ptr \<and> \<not> is_separator st (char_at p c)
      then find_previous_stop st p begin_ptr (c - 1)
      else if is_separator st (char_at p c) then c + 1 else c)"
  by pat_completeness auto
termination
  by (relation "measure (\<lambda>(st, p, b, c). c)") auto

declare find_previous_stop.simps [simp del]

section \<open>Root parser\<close>

text \<open>The loop \<open>while (is_separator(c)) ++c\<close> of \<open>get_root_windows\<close>.\<close>

function skip_separators :: "cwk_path_style \<Rightarrow> string \<Rightarrow> nat \<Rightarrow> nat" where
  "skip_separators st p c =
     (if is_separator st (char_at p c) then skip_separators st p (c + 1) else c)"
  by pat_completeness auto
termination
  by (relation "measure (\<lambda>(st, p, c). length p - c)")
     (auto simp: char_at_def is_separator_def NUL_def BACKSLASH_def split: if_splits,
      (case_tac st; simp add: BACKSLASH_def)+)

declare skip_separators.simps [simp del]

text \<open>
  \<open>get_root_windows\<close>. The style is a parameter because \<open>is_separator\<close> reads the
  configured style; \<open>get_root\<close> calls it under the Windows style only. In the test for a
  device path the cursor is advanced by \<open>++c\<close> only when the first conjunct holds
  (short-circuit evaluation), which is why the server name is searched from offset 3
  in that case and from offset 2 otherwise.
\<close>

definition get_root_windows :: "cwk_path_style \<Rightarrow> string \<Rightarrow> nat" where
  "get_root_windows st path =
     (if char_at path 0 = NUL then 0
      else if is_separator st (char_at path 0) then
        (if \<not> is_separator st (char_at path 1) then 1
         else
           let first = (char_at path 2 = CHR ''?'' \<or> char_at path 2 = CHR ''.'');
               is_device_path = (first \<and> is_separator st (char_at path 3));
               c = (if first then 3 else 2)
           in if is_device_path then 4
              else
                let c = find_next_stop st path c;
                    c = skip_separators st path c;
                    c = find_next_stop st path c;
                    c = (if is_separator st (char_at path c) then c + 1 else c)
                in c)
      else if char_at path 1 = CHR '':'' then
        (if is_separator st (char_at path 2) then 3 else 2)
      else 0)"

definition get_root_unix :: "cwk_path_style \<Rightarrow> string \<Rightarrow> nat" where
  "get_root_unix st path = (if is_separator st (char_at path 0) then 1 else 0)"

definition get_root :: "cwk_path_style \<Rightarrow> string \<Rightarrow> nat" where
  "get_root st path =
     (if st = CWK_STYLE_WINDOWS then get_root_windows st path else get_root_unix st path)"

definition is_root_absolute :: "cwk_path_style \<Rightarrow> string \<Rightarrow> nat \<Rightarrow> bool" where
  "is_root_absolute st path len =
     (if len = 0 then False else is_separator st (char_at path (len - 1)))"

definition is_absolute :: "cwk_path_style \<Rightarrow> string \<Rightarrow> bool" where
  "is_absolute st path = is_root_absolute st path (get_root st path)"

definition is_relative :: "cwk_path_style \<Rightarrow> string \<Rightarrow> bool" where
  "is_relative st path = (\<not> is_absolute st path)"

subsection \<open>Facts about the root parser\<close>

lemma is_separator_iff: "is_separator st ch \<longleftrightarrow> ch \<in> set (separators st)"
  by (cases st) (auto simp: is_separator_def)

lemma not_sep_NUL [simp]: "\<not> is_separator st NUL"
  by (cases st) (auto simp: is_separator_def NUL_def BACKSLASH_def)

lemma char_at_ge [simp]: "length p \<le> i \<Longrightarrow> char_at p i = NUL"
  by (simp add: char_at_def)

lemma find_next_stop_ge: "c \<le> find_next_stop st p c"
  by (induction st p c rule: find_next_stop.induct) (subst find_next_stop.simps, auto)

lemma find_next_stop_le: "c \<le> length p \<Longrightarrow> find_next_stop st p c \<le> length p"
proof (induction st p c rule: find_next_stop.induct)
  case (1 st p c)
  show ?case
  proof (cases "char_at p c \<noteq> NUL \<and> \<not> is_separator st (char_at p c)")
    case True
    then have "c < length p" by (auto simp: char_at_def split: if_splits)
    with 1 True show ?thesis by (subst find_next_stop.simps) simp
  next
    case False
    with 1 show ?thesis by (subst find_next_stop.simps) auto
  qed
qed

lemma skip_separators_le: "c \<le> length p \<Longrightarrow> skip_separators st p c \<le> length p"
proof (induction st p c rule: skip_separators.induct)
  case (1 st p c)
  show ?case
  proof (cases "is_separator st (char_at p c)")
    case True
    then have "c < length p" using not_sep_NUL[of st] by (auto simp: char_at_def split: if_splits)
    with 1 True show ?thesis by (subst skip_separators.simps) simp
  next
    case False
    with 1 show ?thesis by (subst skip_separators.simps) auto
  qed
qed

lemma sep_lt: "is_separator st (char_at p c) \<Longrightarrow> c < length p"
  using not_sep_NUL[of st] by (auto simp: char_at_def split: if_splits)


lemma char_at_neq_NUL_lt: "char_at p c \<noteq> NUL \<Longrightarrow> c < length p"
  by (auto simp: char_at_def split: if_splits)

lemma unc_tail_le:
  assumes "c \<le> length p"
  shows "(let c = find_next_stop st p c; c = skip_separators st p c; c = find_next_stop st p c;
          c = (if is_separator st (char_at p c) then c + 1 else c) in c) \<le> length p"
proof -
  let ?c3 = "find_next_stop st p (skip_separators st p (find_next_stop st p c))"
  have "?c3 \<le> length p"
    using assms by (simp add: find_next_stop_le skip_separators_le)
  moreover have "is_separator st (char_at p ?c3) \<Longrightarrow> ?c3 < length p"
    by (rule sep_lt)
  ultimately show ?thesis by (auto simp: Let_def)
qed

lemma get_root_windows_le: "get_root_windows st p \<le> length p"
proof (cases "char_at p 0 = NUL")
  case True
  then show ?thesis by (simp add: get_root_windows_def)
next
  case nz: False
  show ?thesis
  proof (cases "is_separator st (char_at p 0)")
    case s0: True
    show ?thesis
    proof (cases "is_separator st (char_at p 1)")
      case False
      with s0 nz sep_lt[OF s0] show ?thesis by (simp add: get_root_windows_def Suc_le_eq)
    next
      case s1: True
      have l2: "2 \<le> length p" using sep_lt[OF s1] by simp
      define first where "first = (char_at p 2 = CHR ''?'' \<or> char_at p 2 = CHR ''.'')"
      show ?thesis
      proof (cases "first \<and> is_separator st (char_at p 3)")
        case True
        then have "4 \<le> length p" using sep_lt[of st p 3] by simp
        with True s0 s1 nz show ?thesis
          by (simp add: get_root_windows_def first_def Let_def)
      next
        case False
        have "(if first then 3 else 2) \<le> length p"
          using l2 char_at_neq_NUL_lt[of p 2] by (auto simp: first_def NUL_def)
        from unc_tail_le[OF this, of st] False s0 s1 nz show ?thesis
          unfolding get_root_windows_def first_def Let_def by (simp only: if_True if_False simp_thms) 
      qed
    qed
  next
    case False
    show ?thesis
    proof (cases "char_at p 1 = CHR '':''")
      case True
      then have "2 \<le> length p" using char_at_neq_NUL_lt[of p 1] by (simp add: NUL_def)
      with True False nz sep_lt[of st p 2] show ?thesis
        by (auto simp: get_root_windows_def)
    next
      case c: False
      with False nz show ?thesis by (simp add: get_root_windows_def)
    qed
  qed
qed

lemma get_root_le: "get_root st p \<le> length p"
  using sep_lt[of st p 0] by (auto simp: get_root_def get_root_unix_def get_root_windows_le Suc_le_eq)

text \<open>
  Claim C4. For every style and every path, \<open>is_absolute\<close> holds exactly when the root
  is not empty and the last character of the root is a separator of the style, and
  \<open>is_relative\<close> is its negation. The root is a prefix of the path
  (\<open>get_root st p \<le> length p\<close>), so its last character is the character of the path at
  offset \<open>get_root st p - 1\<close>. The statement quantifies over all paths, hence over every
  root variant.
\<close>

theorem is_absolute_root_rule:
  "is_absolute st p =
     (0 < get_root st p \<and> get_root st p \<le> length p \<and>
      p ! (get_root st p - 1) \<in> set (separators st))
   \<and> is_relative st p = (\<not> is_absolute st p)"
proof -
  have le: "get_root st p \<le> length p" by (rule get_root_le)
  have "0 < get_root st p \<Longrightarrow> char_at p (get_root st p - 1) = p ! (get_root st p - 1)"
    using le by (auto simp: char_at_def)
  then show ?thesis
    using le by (auto simp: is_absolute_def is_relative_def is_root_absolute_def is_separator_iff)
qed

text \<open>
  Claim C8. Under the Windows style the root of \<open>C:test.txt\<close> has length 2 and the path
  is relative, and the root of the same path with a backslash after the colon has
  length 3 and the path is absolute.
\<close>

theorem windows_drive_roots:
  "get_root CWK_STYLE_WINDOWS ''C:test.txt'' = 2 \<and>
   is_relative CWK_STYLE_WINDOWS ''C:test.txt'' \<and>
   get_root CWK_STYLE_WINDOWS (CHR ''C'' # CHR '':'' # BACKSLASH # ''test.txt'') = 3 \<and>
   is_absolute CWK_STYLE_WINDOWS (CHR ''C'' # CHR '':'' # BACKSLASH # ''test.txt'')"
  by (simp add: get_root_def get_root_windows_def is_relative_def is_absolute_def
      is_root_absolute_def is_separator_def char_at_def NUL_def BACKSLASH_def)

section \<open>Segment iterator\<close>

text \<open>
  A segment holds the string it points into (\<open>path\<close>), and the offsets of \<open>segments\<close>,
  \<open>begin\<close> and \<open>end\<close> in that string. The fields carry the prefix \<open>seg_\<close> because
  \<open>begin\<close>, \<open>end\<close> and \<open>size\<close> are reserved.
\<close>

record cwk_segment =
  seg_path :: string
  seg_segments :: nat
  seg_begin :: nat
  seg_end :: nat
  seg_size :: nat

text \<open>
  The loop of \<open>get_first_segment_without_root\<close> that jumps over leading separators:
  \<open>None\<close> is its \<open>return false\<close>.
\<close>

function first_skip :: "cwk_path_style \<Rightarrow> string \<Rightarrow> nat \<Rightarrow> nat option" where
  "first_skip st p c =
     (if is_separator st (char_at p c)
      then (if char_at p (c + 1) = NUL then None else first_skip st p (c + 1))
      else Some c)"
  by pat_completeness auto
termination
  by (relation "measure (\<lambda>(st, p, c). length p - c)") (auto dest: sep_lt)

declare first_skip.simps [simp del]

text \<open>
  Functions that return \<open>bool\<close> and write a segment through a pointer return the pair of
  the flag and the segment.
\<close>

definition get_first_segment_without_root ::
  "cwk_path_style \<Rightarrow> string \<Rightarrow> nat \<Rightarrow> bool \<times> cwk_segment" where
  "get_first_segment_without_root st path segs =
     (let segment = \<lparr>seg_path = path, seg_segments = segs, seg_begin = segs,
                     seg_end = segs, seg_size = 0\<rparr>
      in if char_at path segs = NUL then (False, segment)
         else (case first_skip st path segs of
                 None \<Rightarrow> (False, segment)
               | Some b \<Rightarrow>
                   let e = find_next_stop st path b
                   in (True, segment\<lparr>seg_begin := b, seg_size := e - b, seg_end := e\<rparr>)))"

definition get_first_segment :: "cwk_path_style \<Rightarrow> string \<Rightarrow> bool \<times> cwk_segment" where
  "get_first_segment st path = get_first_segment_without_root st path (get_root st path)"

text \<open>The loop \<open>do { ++c; } while (is_separator(c))\<close> of \<open>get_next_segment\<close>.\<close>

function next_skip :: "cwk_path_style \<Rightarrow> string \<Rightarrow> nat \<Rightarrow> nat" where
  "next_skip st p c =
     (let c' = c + 1 in if is_separator st (char_at p c') then next_skip st p c' else c')"
  by pat_completeness auto
termination
  by (relation "measure (\<lambda>(st, p, c). length p - c)") (auto dest: sep_lt)

declare next_skip.simps [simp del]

text \<open>
  \<open>get_next_segment\<close>. The assertion \<open>assert(is_separator(c))\<close> is not a branch of the
  model; lemma \<open>next_assertion_holds\<close> below shows that it holds for every segment the
  iterator produces.
\<close>

definition get_next_segment :: "cwk_path_style \<Rightarrow> cwk_segment \<Rightarrow> bool \<times> cwk_segment" where
  "get_next_segment st segment =
     (let c = seg_begin segment + seg_size segment
      in if char_at (seg_path segment) c = NUL then (False, segment)
         else
           let c = next_skip st (seg_path segment) c
           in if char_at (seg_path segment) c = NUL then (False, segment)
              else
                let e = find_next_stop st (seg_path segment) c
                in (True, segment\<lparr>seg_begin := c, seg_end := e, seg_size := e - c\<rparr>))"

text \<open>
  The loop \<open>do { --c; if (c < segment->segments) return false; } while (is_separator(c))\<close>
  of \<open>get_previous_segment\<close>. Offsets are natural numbers, so the decrement and the test
  \<open>c < segments\<close> that follows it are written as the test \<open>c \<le> segments\<close> before the
  decrement; \<open>None\<close> is the \<open>return false\<close>.
\<close>

function prev_skip :: "cwk_path_style \<Rightarrow> string \<Rightarrow> nat \<Rightarrow> nat \<Rightarrow> nat option" where
  "prev_skip st p segs c =
     (if c \<le> segs then None
      else let c' = c - 1
           in if is_separator st (char_at p c') then prev_skip st p segs c' else Some c')"
  by pat_completeness auto
termination
  by (relation "measure (\<lambda>(st, p, segs, c). c)") auto

declare prev_skip.simps [simp del]

definition get_previous_segment :: "cwk_path_style \<Rightarrow> cwk_segment \<Rightarrow> bool \<times> cwk_segment" where
  "get_previous_segment st segment =
     (let c = seg_begin segment
      in if c \<le> seg_segments segment then (False, segment)
         else (case prev_skip st (seg_path segment) (seg_segments segment) c of
                 None \<Rightarrow> (False, segment)
               | Some c \<Rightarrow>
                   let b = find_previous_stop st (seg_path segment) (seg_segments segment) c
                   in (True, segment\<lparr>seg_end := c + 1, seg_begin := b,
                                     seg_size := (c + 1) - b\<rparr>)))"

text \<open>
  \<open>strncmp(s1, s2, n) == 0\<close> on two strings read from the given offsets: at most \<open>n\<close>
  characters are compared and the comparison stops after a common terminator.
\<close>

fun strncmp_is_0 :: "string \<Rightarrow> nat \<Rightarrow> string \<Rightarrow> nat \<Rightarrow> nat \<Rightarrow> bool" where
  "strncmp_is_0 p i q j 0 = True"
| "strncmp_is_0 p i q j (Suc n) =
     (if char_at p i \<noteq> char_at q j then False
      else if char_at p i = NUL then True
      else strncmp_is_0 p (i + 1) q (j + 1) n)"

definition get_segment_type :: "cwk_segment \<Rightarrow> cwk_segment_type" where
  "get_segment_type segment =
     (if strncmp_is_0 (seg_path segment) (seg_begin segment) ''.'' 0 (seg_size segment)
      then CWK_CURRENT
      else if strncmp_is_0 (seg_path segment) (seg_begin segment) ''..'' 0 (seg_size segment)
      then CWK_BACK
      else CWK_NORMAL)"

subsection \<open>Facts about the cursor loops\<close>

lemma find_next_stop_inside:
  "c \<le> i \<Longrightarrow> i < find_next_stop st p c \<Longrightarrow>
     char_at p i \<noteq> NUL \<and> \<not> is_separator st (char_at p i)"
proof (induction st p c rule: find_next_stop.induct)
  case (1 st p c)
  show ?case
  proof (cases "char_at p c \<noteq> NUL \<and> \<not> is_separator st (char_at p c)")
    case True
    then have eq: "find_next_stop st p c = find_next_stop st p (c + 1)"
      by (subst find_next_stop.simps) simp
    show ?thesis
    proof (cases "i = c")
      case True
      with \<open>char_at p c \<noteq> NUL \<and> \<not> is_separator st (char_at p c)\<close> show ?thesis by simp
    next
      case False
      with 1 True eq show ?thesis by simp
    qed
  next
    case False
    then have "find_next_stop st p c = c" by (subst find_next_stop.simps) auto
    with 1(2,3) show ?thesis by simp
  qed
qed

lemma find_next_stop_at:
  "char_at p (find_next_stop st p c) = NUL \<or> is_separator st (char_at p (find_next_stop st p c))"
proof (induction st p c rule: find_next_stop.induct)
  case (1 st p c)
  show ?case
  proof (cases "char_at p c \<noteq> NUL \<and> \<not> is_separator st (char_at p c)")
    case True
    then have "find_next_stop st p c = find_next_stop st p (c + 1)"
      by (subst find_next_stop.simps) simp
    with 1 True show ?thesis by simp
  next
    case False
    then have "find_next_stop st p c = c" by (subst find_next_stop.simps) auto
    with False show ?thesis by auto
  qed
qed

lemma find_next_stop_eqI:
  assumes "c \<le> e"
    and "\<And>i. c \<le> i \<Longrightarrow> i < e \<Longrightarrow> char_at p i \<noteq> NUL \<and> \<not> is_separator st (char_at p i)"
    and "char_at p e = NUL \<or> is_separator st (char_at p e)"
  shows "find_next_stop st p c = e"
proof -
  let ?r = "find_next_stop st p c"
  have "\<not> ?r < e"
    using assms(2)[of ?r] find_next_stop_ge[of c st p] find_next_stop_at[of p st c] by auto
  moreover have "\<not> e < ?r"
    using find_next_stop_inside[of c e st p] assms(1,3) by auto
  ultimately show ?thesis by simp
qed

lemma next_skip_gt: "c < next_skip st p c"
proof (induction st p c rule: next_skip.induct)
  case (1 st p c)
  then show ?case by (subst next_skip.simps) (auto simp: Let_def)
qed

lemma next_skip_inside: "c < i \<Longrightarrow> i < next_skip st p c \<Longrightarrow> is_separator st (char_at p i)"
proof (induction st p c rule: next_skip.induct)
  case (1 st p c)
  show ?case
  proof (cases "is_separator st (char_at p (c + 1))")
    case True
    then have eq: "next_skip st p c = next_skip st p (c + 1)"
      by (subst next_skip.simps) (simp add: Let_def)
    show ?thesis
    proof (cases "i = c + 1")
      case True
      with \<open>is_separator st (char_at p (c + 1))\<close> show ?thesis by simp
    next
      case False
      with 1 True eq show ?thesis by simp
    qed
  next
    case False
    then have "next_skip st p c = c + 1" by (subst next_skip.simps) (simp add: Let_def)
    with 1(2,3) show ?thesis by simp
  qed
qed

lemma next_skip_at: "\<not> is_separator st (char_at p (next_skip st p c))"
proof (induction st p c rule: next_skip.induct)
  case (1 st p c)
  then show ?case by (subst next_skip.simps) (auto simp: Let_def)
qed

lemma next_skip_eqI:
  assumes "c < e"
    and "\<And>i. c < i \<Longrightarrow> i < e \<Longrightarrow> is_separator st (char_at p i)"
    and "\<not> is_separator st (char_at p e)"
  shows "next_skip st p c = e"
proof -
  let ?r = "next_skip st p c"
  have "\<not> ?r < e"
    using assms(2)[of ?r] next_skip_gt[of c st p] next_skip_at[of st p c] by auto
  moreover have "\<not> e < ?r"
    using next_skip_inside[of c e st p] assms(1,3) by auto
  ultimately show ?thesis by simp
qed

lemma next_skip_le: "c < length p \<Longrightarrow> next_skip st p c \<le> length p"
proof (induction st p c rule: next_skip.induct)
  case (1 st p c)
  show ?case
  proof (cases "is_separator st (char_at p (c + 1))")
    case True
    with 1 sep_lt[OF True] show ?thesis by (subst next_skip.simps) (simp add: Let_def)
  next
    case False
    with 1 show ?thesis by (subst next_skip.simps) (simp add: Let_def)
  qed
qed

lemma prev_skip_found:
  assumes "segs \<le> k" "k < c"
    and "\<not> is_separator st (char_at p k)"
    and "\<And>i. k < i \<Longrightarrow> i < c \<Longrightarrow> is_separator st (char_at p i)"
  shows "prev_skip st p segs c = Some k"
  using assms
proof (induction st p segs c rule: prev_skip.induct)
  case (1 st p segs c)
  show ?case
  proof (cases "k = c - 1")
    case True
    with 1(2-4) show ?thesis by (subst prev_skip.simps) (simp add: Let_def)
  next
    case False
    with 1(2,3) have k: "k < c - 1" by simp
    then have sep: "is_separator st (char_at p (c - 1))" using 1(5)[of "c - 1"] by simp
    have "prev_skip st p segs (c - 1) = Some k"
      using 1(1)[OF _ refl sep 1(2) k 1(4)] 1(2,3,5) by simp
    with sep 1(2,3) show ?thesis by (subst prev_skip.simps) (simp add: Let_def)
  qed
qed

lemma prev_skip_none:
  assumes "\<And>i. segs \<le> i \<Longrightarrow> i < c \<Longrightarrow> is_separator st (char_at p i)"
  shows "prev_skip st p segs c = None"
  using assms
proof (induction st p segs c rule: prev_skip.induct)
  case (1 st p segs c)
  show ?case
  proof (cases "c \<le> segs")
    case True
    then show ?thesis by (subst prev_skip.simps) simp
  next
    case False
    then have sep: "is_separator st (char_at p (c - 1))" using 1(2)[of "c - 1"] by simp
    have "prev_skip st p segs (c - 1) = None"
      using 1(1)[OF False refl sep] 1(2) by simp
    with sep False show ?thesis by (subst prev_skip.simps) (simp add: Let_def)
  qed
qed

lemma find_previous_stop_eq:
  assumes "segs \<le> b" "b \<le> c"
    and "\<And>i. b \<le> i \<Longrightarrow> i \<le> c \<Longrightarrow> \<not> is_separator st (char_at p i)"
    and "b = segs \<or> is_separator st (char_at p (b - 1))"
  shows "find_previous_stop st p segs c = b"
  using assms
proof (induction st p segs c rule: find_previous_stop.induct)
  case (1 st p segs c)
  have nsep: "\<not> is_separator st (char_at p c)" using 1(3) 1(4)[of c] by simp
  show ?case
  proof (cases "c > segs")
    case True
    show ?thesis
    proof (cases "b = c")
      case True
      with \<open>c > segs\<close> 1(2,5) have sep: "is_separator st (char_at p (c - 1))" by auto
      have "find_previous_stop st p segs (c - 1) = c"
        using sep \<open>c > segs\<close> by (subst find_previous_stop.simps) simp
      with \<open>c > segs\<close> nsep True show ?thesis by (subst find_previous_stop.simps) simp
    next
      case False
      with 1(3) have lt: "b \<le> c - 1" by simp
      have "find_previous_stop st p segs (c - 1) = b"
        using 1(1)[OF _ 1(2) lt _ 1(5)] True nsep 1(4) by simp
      with True nsep show ?thesis by (subst find_previous_stop.simps) simp
    qed
  next
    case False
    with 1(2,3) have "b = c" by simp
    with False nsep show ?thesis by (subst find_previous_stop.simps) simp
  qed
qed

lemma first_skip_Some:
  "first_skip st p c = Some b \<Longrightarrow>
     c \<le> b \<and> \<not> is_separator st (char_at p b) \<and>
     (\<forall>i. c \<le> i \<and> i < b \<longrightarrow> is_separator st (char_at p i)) \<and>
     (c < b \<longrightarrow> char_at p b \<noteq> NUL)"
proof (induction st p c rule: first_skip.induct)
  case (1 st p c)
  show ?case
  proof (cases "is_separator st (char_at p c)")
    case True
    with 1(2) have nn: "char_at p (c + 1) \<noteq> NUL" and r: "first_skip st p (c + 1) = Some b"
      by (subst (asm) first_skip.simps, simp split: if_splits)+
    from 1(1)[OF True nn r] have ih: "c + 1 \<le> b" "\<not> is_separator st (char_at p b)"
      "\<And>i. c + 1 \<le> i \<Longrightarrow> i < b \<Longrightarrow> is_separator st (char_at p i)"
      "c + 1 < b \<Longrightarrow> char_at p b \<noteq> NUL" by auto
    have "char_at p b \<noteq> NUL" using ih(1,4) nn by (cases "b = c + 1") auto
    moreover have "\<And>i. c \<le> i \<Longrightarrow> i < b \<Longrightarrow> is_separator st (char_at p i)"
    proof -
      fix i assume "c \<le> i" "i < b"
      then show "is_separator st (char_at p i)" using True ih(3)[of i] by (cases "i = c") auto
    qed
    ultimately show ?thesis using ih(1,2) by auto
  next
    case False
    with 1(2) have "b = c" by (subst (asm) first_skip.simps) simp
    with False show ?thesis by simp
  qed
qed

lemma first_skip_None:
  "first_skip st p c = None \<Longrightarrow>
     \<exists>e>c. char_at p e = NUL \<and> (\<forall>i. c \<le> i \<and> i < e \<longrightarrow> is_separator st (char_at p i))"
proof (induction st p c rule: first_skip.induct)
  case (1 st p c)
  show ?case
  proof (cases "is_separator st (char_at p c)")
    case True
    show ?thesis
    proof (cases "char_at p (c + 1) = NUL")
      case n: True
      have "\<forall>i. c \<le> i \<and> i < c + 1 \<longrightarrow> is_separator st (char_at p i)"
        using True by (auto simp: less_Suc_eq_le)
      with n show ?thesis by (intro exI[of _ "c + 1"]) simp
    next
      case False
      with 1(2) True have r: "first_skip st p (c + 1) = None"
        by (subst (asm) first_skip.simps) simp
      from 1(1)[OF True False r] obtain e where e: "e > c + 1" "char_at p e = NUL"
        "\<And>i. c + 1 \<le> i \<Longrightarrow> i < e \<Longrightarrow> is_separator st (char_at p i)" by auto
      have "\<And>i. c \<le> i \<Longrightarrow> i < e \<Longrightarrow> is_separator st (char_at p i)"
      proof -
        fix i assume "c \<le> i" "i < e"
        then show "is_separator st (char_at p i)" using True e(3)[of i] by (cases "i = c") auto
      qed
      with e(1,2) show ?thesis by (intro exI[of _ e]) simp
    qed
  next
    case False
    with 1(2) show ?thesis by (subst (asm) first_skip.simps) simp
  qed
qed

lemma find_previous_stop_le: "find_previous_stop st p segs c \<le> c + 1"
proof (induction st p segs c rule: find_previous_stop.induct)
  case (1 st p segs c)
  show ?case
  proof (cases "c > segs \<and> \<not> is_separator st (char_at p c)")
    case True
    with 1 show ?thesis by (subst find_previous_stop.simps) simp
  next
    case False
    then show ?thesis by (subst find_previous_stop.simps) auto
  qed
qed

lemma find_previous_stop_props:
  assumes "segs \<le> c" "\<not> is_separator st (char_at p c)"
  shows "segs \<le> find_previous_stop st p segs c \<and> find_previous_stop st p segs c \<le> c \<and>
         (\<forall>i. find_previous_stop st p segs c \<le> i \<and> i \<le> c \<longrightarrow> \<not> is_separator st (char_at p i)) \<and>
         (find_previous_stop st p segs c = segs \<or>
          is_separator st (char_at p (find_previous_stop st p segs c - 1)))"
  using assms
proof (induction st p segs c rule: find_previous_stop.induct)
  case (1 st p segs c)
  show ?case
  proof (cases "c > segs")
    case True
    show ?thesis
    proof (cases "is_separator st (char_at p (c - 1))")
      case sep: True
      have "find_previous_stop st p segs (c - 1) = c"
        using sep True by (subst find_previous_stop.simps) simp
      then have "find_previous_stop st p segs c = c"
        using True 1(3) by (subst find_previous_stop.simps) simp
      with sep 1(2,3) show ?thesis by (auto simp: le_antisym)
    next
      case False
      have eq: "find_previous_stop st p segs c = find_previous_stop st p segs (c - 1)"
        using True 1(3) by (subst find_previous_stop.simps) simp
      from True have "segs \<le> c - 1" by simp
      from 1(1)[OF _ this False] True 1(3)
      have ih: "segs \<le> find_previous_stop st p segs (c - 1)"
        "find_previous_stop st p segs (c - 1) \<le> c - 1"
        "\<And>i. find_previous_stop st p segs (c - 1) \<le> i \<Longrightarrow> i \<le> c - 1 \<Longrightarrow>
            \<not> is_separator st (char_at p i)"
        "find_previous_stop st p segs (c - 1) = segs \<or>
          is_separator st (char_at p (find_previous_stop st p segs (c - 1) - 1))"
        by auto
      have "\<And>i. find_previous_stop st p segs (c - 1) \<le> i \<Longrightarrow> i \<le> c \<Longrightarrow>
            \<not> is_separator st (char_at p i)"
      proof -
        fix i assume "find_previous_stop st p segs (c - 1) \<le> i" "i \<le> c"
        then show "\<not> is_separator st (char_at p i)"
          using ih(3)[of i] 1(3) by (cases "i = c") auto
      qed
      with ih(1,2,4) show ?thesis unfolding eq by auto
    qed
  next
    case False
    then have "find_previous_stop st p segs c = c"
      using 1(3) by (subst find_previous_stop.simps) simp
    with False 1(2,3) show ?thesis by auto
  qed
qed

lemma get_next_segment_progress:
  assumes "get_next_segment st s = (True, s')"
  shows "seg_path s' = seg_path s \<and> seg_segments s' = seg_segments s \<and>
         seg_begin s + seg_size s < seg_begin s' + seg_size s' \<and>
         seg_begin s' + seg_size s' \<le> length (seg_path s)"
proof -
  let ?p = "seg_path s"
  let ?c = "seg_begin s + seg_size s"
  let ?c' = "next_skip st ?p ?c"
  let ?e = "find_next_stop st ?p ?c'"
  from assms have n1: "char_at ?p ?c \<noteq> NUL" and n2: "char_at ?p ?c' \<noteq> NUL"
    and s': "s' = s\<lparr>seg_begin := ?c', seg_end := ?e, seg_size := ?e - ?c'\<rparr>"
    by (auto simp: get_next_segment_def Let_def split: if_splits)
  have "?c < ?c'" by (rule next_skip_gt)
  moreover have "?c' \<le> ?e" by (rule find_next_stop_ge)
  moreover have "?c' < length ?p" using n2 by (rule char_at_neq_NUL_lt)
  then have "?e \<le> length ?p" by (simp add: find_next_stop_le)
  ultimately show ?thesis by (simp add: s')
qed

lemma get_next_segment_False: "get_next_segment st s = (False, s') \<Longrightarrow> s' = s"
  by (auto simp: get_next_segment_def Let_def split: if_splits)

lemma get_previous_segment_False: "get_previous_segment st s = (False, s') \<Longrightarrow> s' = s"
  by (auto simp: get_previous_segment_def Let_def split: if_splits option.splits)

text \<open>The loop \<open>while (get_next_segment(segment)) {}\<close> of \<open>get_last_segment\<close>.\<close>

function last_loop :: "cwk_path_style \<Rightarrow> cwk_segment \<Rightarrow> cwk_segment" where
  "last_loop st segment =
     (case get_next_segment st segment of
        (True, segment') \<Rightarrow> last_loop st segment'
      | (False, segment') \<Rightarrow> segment')"
  by pat_completeness auto
termination
  by (relation "measure (\<lambda>(st, s). length (seg_path s) - (seg_begin s + seg_size s))")
     (auto dest!: get_next_segment_progress[OF sym])

declare last_loop.simps [simp del]

definition get_last_segment :: "cwk_path_style \<Rightarrow> string \<Rightarrow> bool \<times> cwk_segment" where
  "get_last_segment st path =
     (case get_first_segment st path of
        (False, segment) \<Rightarrow> (False, segment)
      | (True, segment) \<Rightarrow> (True, last_loop st segment))"

subsection \<open>Well-formed segments\<close>

text \<open>
  The invariant of the segments the iterator produces: the segment is a non-empty maximal
  run of characters that are neither separators nor the terminator, it lies at or after
  \<open>segments\<close>, and no terminator stands between \<open>segments\<close> and its beginning.
\<close>

definition segment_wf :: "cwk_path_style \<Rightarrow> cwk_segment \<Rightarrow> bool" where
  "segment_wf st s =
     (seg_segments s \<le> seg_begin s \<and> seg_begin s < seg_end s \<and>
      seg_size s = seg_end s - seg_begin s \<and>
      (\<forall>i. seg_begin s \<le> i \<and> i < seg_end s \<longrightarrow>
         char_at (seg_path s) i \<noteq> NUL \<and> \<not> is_separator st (char_at (seg_path s) i)) \<and>
      (char_at (seg_path s) (seg_end s) = NUL \<or>
       is_separator st (char_at (seg_path s) (seg_end s))) \<and>
      (seg_begin s = seg_segments s \<or>
       is_separator st (char_at (seg_path s) (seg_begin s - 1))) \<and>
      (\<forall>i. seg_segments s \<le> i \<and> i < seg_begin s \<longrightarrow> char_at (seg_path s) i \<noteq> NUL))"

lemma find_next_stop_gt:
  assumes "char_at p b \<noteq> NUL" "\<not> is_separator st (char_at p b)"
  shows "b < find_next_stop st p b"
proof -
  have "find_next_stop st p b \<noteq> b" using find_next_stop_at[of p st b] assms by auto
  with find_next_stop_ge[of b st p] show ?thesis by simp
qed

lemma first_segment_wf:
  assumes "get_first_segment_without_root st path segs = (True, s)"
  shows "segment_wf st s \<and> seg_path s = path \<and> seg_segments s = segs \<and>
         (\<forall>i. segs \<le> i \<and> i < seg_begin s \<longrightarrow> is_separator st (char_at path i))"
proof -
  from assms have n0: "char_at path segs \<noteq> NUL"
    by (auto simp: get_first_segment_without_root_def Let_def split: if_splits)
  from assms n0 obtain b where b: "first_skip st path segs = Some b"
    by (auto simp: get_first_segment_without_root_def Let_def split: option.splits)
  let ?e = "find_next_stop st path b"
  from assms n0 b have s: "s = \<lparr>seg_path = path, seg_segments = segs, seg_begin = b,
      seg_end = ?e, seg_size = ?e - b\<rparr>"
    by (auto simp: get_first_segment_without_root_def Let_def)
  from first_skip_Some[OF b] have fs: "segs \<le> b" "\<not> is_separator st (char_at path b)"
    "\<And>i. segs \<le> i \<Longrightarrow> i < b \<Longrightarrow> is_separator st (char_at path i)"
    "segs < b \<Longrightarrow> char_at path b \<noteq> NUL" by auto
  have nb: "char_at path b \<noteq> NUL" using fs(1,4) n0 by (cases "b = segs") auto
  have lt: "b < ?e" using nb fs(2) by (rule find_next_stop_gt)
  have prevsep: "b = segs \<or> is_separator st (char_at path (b - 1))"
    using fs(1) fs(3)[of "b - 1"] by (cases "b = segs") auto
  have nonul: "\<And>i. segs \<le> i \<Longrightarrow> i < b \<Longrightarrow> char_at path i \<noteq> NUL"
    using fs(3) not_sep_NUL[of st] by metis
  show ?thesis
    unfolding segment_wf_def s
    using fs(1) lt prevsep nonul find_next_stop_inside[of b _ st path]
      find_next_stop_at[of path st b] fs(3)
    by simp
qed

lemma next_segment_wf:
  assumes wf: "segment_wf st s" and nx: "get_next_segment st s = (True, s')"
  shows "segment_wf st s'"
proof -
  let ?p = "seg_path s"
  have c: "seg_begin s + seg_size s = seg_end s" using wf by (simp add: segment_wf_def)
  let ?c' = "next_skip st ?p (seg_end s)"
  let ?e = "find_next_stop st ?p ?c'"
  from nx have n1: "char_at ?p (seg_end s) \<noteq> NUL" and n2: "char_at ?p ?c' \<noteq> NUL"
    and s': "s' = s\<lparr>seg_begin := ?c', seg_end := ?e, seg_size := ?e - ?c'\<rparr>"
    by (auto simp: get_next_segment_def Let_def c split: if_splits)
  have gt: "seg_end s < ?c'" by (rule next_skip_gt)
  have ns: "\<not> is_separator st (char_at ?p ?c')" by (rule next_skip_at)
  have lt: "?c' < ?e" using n2 ns by (rule find_next_stop_gt)
  have sep_end: "is_separator st (char_at ?p (seg_end s))"
    using wf n1 by (simp add: segment_wf_def)
  have between: "\<And>i. seg_end s \<le> i \<Longrightarrow> i < ?c' \<Longrightarrow> is_separator st (char_at ?p i)"
  proof -
    fix i assume "seg_end s \<le> i" "i < ?c'"
    then show "is_separator st (char_at ?p i)"
      using sep_end next_skip_inside[of "seg_end s" i st ?p] by (cases "i = seg_end s") auto
  qed
  have prevsep: "is_separator st (char_at ?p (?c' - 1))"
    using between[of "?c' - 1"] gt by simp
  have nonul: "\<And>i. seg_segments s \<le> i \<Longrightarrow> i < ?c' \<Longrightarrow> char_at ?p i \<noteq> NUL"
  proof -
    fix i assume i: "seg_segments s \<le> i" "i < ?c'"
    consider "i < seg_begin s" | "seg_begin s \<le> i" "i < seg_end s" | "seg_end s \<le> i"
      by linarith
    then show "char_at ?p i \<noteq> NUL"
    proof cases
      case 1 with wf i show ?thesis by (simp add: segment_wf_def)
    next
      case 2 with wf show ?thesis by (simp add: segment_wf_def)
    next
      case 3 with between[of i] i not_sep_NUL[of st] show ?thesis by metis
    qed
  qed
  have "seg_segments s \<le> ?c'" using wf gt by (simp add: segment_wf_def)
  then show ?thesis
    unfolding segment_wf_def s'
    using lt prevsep nonul find_next_stop_inside[of ?c' _ st ?p] find_next_stop_at[of ?p st ?c']
    by simp
qed

lemma next_then_previous:
  assumes wf: "segment_wf st s" and nx: "get_next_segment st s = (True, s')"
  shows "get_previous_segment st s' = (True, s)"
proof -
  let ?p = "seg_path s"
  have c: "seg_begin s + seg_size s = seg_end s" using wf by (simp add: segment_wf_def)
  let ?c' = "next_skip st ?p (seg_end s)"
  let ?e = "find_next_stop st ?p ?c'"
  from nx have n1: "char_at ?p (seg_end s) \<noteq> NUL"
    and s': "s' = s\<lparr>seg_begin := ?c', seg_end := ?e, seg_size := ?e - ?c'\<rparr>"
    by (auto simp: get_next_segment_def Let_def c split: if_splits)
  have gt: "seg_end s < ?c'" by (rule next_skip_gt)
  have sep_end: "is_separator st (char_at ?p (seg_end s))"
    using wf n1 by (simp add: segment_wf_def)
  have between: "\<And>i. seg_end s - 1 < i \<Longrightarrow> i < ?c' \<Longrightarrow> is_separator st (char_at ?p i)"
  proof -
    fix i assume "seg_end s - 1 < i" "i < ?c'"
    then show "is_separator st (char_at ?p i)"
      using sep_end next_skip_inside[of "seg_end s" i st ?p] by (cases "i = seg_end s") auto
  qed
  have bounds: "seg_segments s \<le> seg_begin s" "seg_begin s < seg_end s"
    using wf by (simp_all add: segment_wf_def)
  have lastch: "\<not> is_separator st (char_at ?p (seg_end s - 1))"
    using wf bounds by (simp add: segment_wf_def)
  have ps: "prev_skip st ?p (seg_segments s) ?c' = Some (seg_end s - 1)"
    using bounds gt lastch between by (intro prev_skip_found) auto
  have fp: "find_previous_stop st ?p (seg_segments s) (seg_end s - 1) = seg_begin s"
    using wf bounds by (intro find_previous_stop_eq) (auto simp: segment_wf_def)
  have "\<not> ?c' \<le> seg_segments s" using bounds gt by simp
  then show ?thesis
    using ps fp bounds wf
    by (simp add: get_previous_segment_def s' Let_def segment_wf_def)
qed

lemma prev_skip_Some:
  "prev_skip st p segs c = Some k \<Longrightarrow>
     segs \<le> k \<and> k < c \<and> \<not> is_separator st (char_at p k) \<and>
     (\<forall>i. k < i \<and> i < c \<longrightarrow> is_separator st (char_at p i))"
proof (induction st p segs c rule: prev_skip.induct)
  case (1 st p segs c)
  from 1(2) have gt: "\<not> c \<le> segs" by (subst (asm) prev_skip.simps) (simp split: if_splits)
  show ?case
  proof (cases "is_separator st (char_at p (c - 1))")
    case True
    with 1(2) gt have r: "prev_skip st p segs (c - 1) = Some k"
      by (subst (asm) prev_skip.simps) (simp add: Let_def)
    from 1(1)[OF gt refl True r]
    have ih: "segs \<le> k" "k < c - 1" "\<not> is_separator st (char_at p k)"
      "\<And>i. k < i \<Longrightarrow> i < c - 1 \<Longrightarrow> is_separator st (char_at p i)" by auto
    have "\<And>i. k < i \<Longrightarrow> i < c \<Longrightarrow> is_separator st (char_at p i)"
    proof -
      fix i assume "k < i" "i < c"
      then show "is_separator st (char_at p i)"
        using ih(4)[of i] True by (cases "i = c - 1") auto
    qed
    with ih(1,2,3) show ?thesis by auto
  next
    case False
    with 1(2) gt have "k = c - 1"
      by (subst (asm) prev_skip.simps) (simp add: Let_def)
    with False gt show ?thesis by auto
  qed
qed

lemma previous_segment_wf:
  assumes wf: "segment_wf st s" and pv: "get_previous_segment st s = (True, s')"
  shows "segment_wf st s'"
proof -
  let ?p = "seg_path s"
  let ?g = "seg_segments s"
  from pv have gt: "?g < seg_begin s"
    by (auto simp: get_previous_segment_def Let_def split: if_splits)
  from pv gt obtain c where c: "prev_skip st ?p ?g (seg_begin s) = Some c"
    by (auto simp: get_previous_segment_def Let_def split: option.splits)
  let ?b = "find_previous_stop st ?p ?g c"
  from pv gt c have s': "s' = s\<lparr>seg_end := c + 1, seg_begin := ?b, seg_size := (c + 1) - ?b\<rparr>"
    by (auto simp: get_previous_segment_def Let_def)
  have sepb: "is_separator st (char_at ?p (seg_begin s - 1))"
    using wf gt by (auto simp: segment_wf_def)
  from prev_skip_Some[OF c]
  have pk: "?g \<le> c" "c < seg_begin s" "\<not> is_separator st (char_at ?p c)"
    "\<And>i. c < i \<Longrightarrow> i < seg_begin s \<Longrightarrow> is_separator st (char_at ?p i)" by auto
  have "c \<noteq> seg_begin s - 1" using sepb pk(3) by auto
  with pk(2) have c2: "c + 1 < seg_begin s" by simp
  then have sepc: "is_separator st (char_at ?p (c + 1))" using pk(4)[of "c + 1"] by simp
  from find_previous_stop_props[OF pk(1) pk(3)]
  have fb: "?g \<le> ?b" "?b \<le> c"
    "\<And>i. ?b \<le> i \<Longrightarrow> i \<le> c \<Longrightarrow> \<not> is_separator st (char_at ?p i)"
    "?b = ?g \<or> is_separator st (char_at ?p (?b - 1))" by auto
  have nonul: "\<And>i. ?g \<le> i \<Longrightarrow> i \<le> c \<Longrightarrow> char_at ?p i \<noteq> NUL"
    using wf c2 by (simp add: segment_wf_def)
  have inside: "\<forall>i. ?b \<le> i \<and> i < c + 1 \<longrightarrow>
      char_at ?p i \<noteq> NUL \<and> \<not> is_separator st (char_at ?p i)"
    using fb(1,3) nonul by (simp add: less_Suc_eq_le)
  have before: "\<forall>i. ?g \<le> i \<and> i < ?b \<longrightarrow> char_at ?p i \<noteq> NUL"
    using fb(2) nonul by simp
  have "?b < c + 1" using fb(2) by simp
  with fb(1,4) sepc inside before show ?thesis
    unfolding segment_wf_def s' by simp
qed

lemma first_has_no_previous:
  assumes "get_first_segment_without_root st path segs = (True, s)"
  shows "get_previous_segment st s = (False, s)"
proof -
  from first_segment_wf[OF assms]
  have p: "seg_path s = path" "seg_segments s = segs"
    "\<And>i. segs \<le> i \<Longrightarrow> i < seg_begin s \<Longrightarrow> is_separator st (char_at path i)" by auto
  have "prev_skip st path segs (seg_begin s) = None"
    using p(3) by (intro prev_skip_none) auto
  then show ?thesis by (simp add: get_previous_segment_def p Let_def)
qed

text \<open>The segments of a path: those the iterator functions produce, starting from the first.\<close>

inductive path_segment :: "cwk_path_style \<Rightarrow> string \<Rightarrow> cwk_segment \<Rightarrow> bool"
  for st :: cwk_path_style and path :: string where
  ps_first: "get_first_segment st path = (True, s) \<Longrightarrow> path_segment st path s"
| ps_next: "path_segment st path s \<Longrightarrow> get_next_segment st s = (True, s') \<Longrightarrow>
            path_segment st path s'"
| ps_previous: "path_segment st path s \<Longrightarrow> get_previous_segment st s = (True, s') \<Longrightarrow>
            path_segment st path s'"

lemma path_segment_wf: "path_segment st path s \<Longrightarrow> segment_wf st s"
proof (induction rule: path_segment.induct)
  case (ps_first s)
  then show ?case using first_segment_wf by (simp add: get_first_segment_def)
next
  case (ps_next s s')
  then show ?case by (simp add: next_segment_wf)
next
  case (ps_previous s s')
  then show ?case by (simp add: previous_segment_wf)
qed

lemma next_assertion_holds:
  assumes "path_segment st path s" "char_at (seg_path s) (seg_begin s + seg_size s) \<noteq> NUL"
  shows "is_separator st (char_at (seg_path s) (seg_begin s + seg_size s))"
  using path_segment_wf[OF assms(1)] assms(2) by (auto simp: segment_wf_def)

text \<open>
  Claim C9. For every style and path and every segment \<open>s\<close> of the path (a segment the
  iterator functions produce from the first segment): if \<open>get_next_segment\<close> yields a next
  segment \<open>s'\<close>, then \<open>get_previous_segment\<close> on \<open>s'\<close> succeeds and gives back exactly
  \<open>s\<close>, with all fields equal; and \<open>get_previous_segment\<close> on the first segment returns
  false and leaves the segment as it was.
\<close>

theorem segment_iterator_round_trip:
  "(path_segment st path s \<and> get_next_segment st s = (True, s') \<longrightarrow>
      get_previous_segment st s' = (True, s)) \<and>
   (get_first_segment st path = (True, f) \<longrightarrow> get_previous_segment st f = (False, f))"
  using next_then_previous[of st s s'] path_segment_wf[of st path s]
    first_has_no_previous[of st path "get_root st path" f]
  by (auto simp: get_first_segment_def)

theorem segment_iterator_round_trip_witness:
  "get_first_segment CWK_STYLE_UNIX ''/a/b'' =
     (True, \<lparr>seg_path = ''/a/b'', seg_segments = 1, seg_begin = 1, seg_end = 2, seg_size = 1\<rparr>) \<and>
   get_next_segment CWK_STYLE_UNIX
       \<lparr>seg_path = ''/a/b'', seg_segments = 1, seg_begin = 1, seg_end = 2, seg_size = 1\<rparr> =
     (True, \<lparr>seg_path = ''/a/b'', seg_segments = 1, seg_begin = 3, seg_end = 4, seg_size = 1\<rparr>) \<and>
   get_previous_segment CWK_STYLE_UNIX
       \<lparr>seg_path = ''/a/b'', seg_segments = 1, seg_begin = 3, seg_end = 4, seg_size = 1\<rparr> =
     (True, \<lparr>seg_path = ''/a/b'', seg_segments = 1, seg_begin = 1, seg_end = 2, seg_size = 1\<rparr>) \<and>
   get_previous_segment CWK_STYLE_UNIX
       \<lparr>seg_path = ''/a/b'', seg_segments = 1, seg_begin = 1, seg_end = 2, seg_size = 1\<rparr> =
     (False, \<lparr>seg_path = ''/a/b'', seg_segments = 1, seg_begin = 1, seg_end = 2, seg_size = 1\<rparr>)"
proof -
  let ?s1 = "\<lparr>seg_path = ''/a/b'', seg_segments = 1, seg_begin = 1, seg_end = 2, seg_size = 1\<rparr>"
  let ?s2 = "\<lparr>seg_path = ''/a/b'', seg_segments = 1, seg_begin = 3, seg_end = 4, seg_size = 1\<rparr>"
  have a: "get_first_segment CWK_STYLE_UNIX ''/a/b'' = (True, ?s1)"
    by code_simp
  have b: "get_next_segment CWK_STYLE_UNIX ?s1 = (True, ?s2)"
    by code_simp
  from segment_iterator_round_trip[of CWK_STYLE_UNIX "''/a/b''" ?s1 ?s2 ?s1] ps_first[OF a] a b
  show ?thesis by simp
qed

section \<open>Joined segment stream\<close>

text \<open>
  A joined path is the array of its fragments, terminated by a null pointer: the list
  \<open>sj_paths\<close>, where \<open>paths[i] == NULL\<close> means \<open>i = length paths\<close>. \<open>path_at\<close> reads an
  entry; \<open>None\<close> is the null pointer (and, in the model, every index behind it, which the
  code never reads: \<open>path_index\<close> is not advanced past the null entry).
\<close>

record cwk_segment_joined =
  sj_segment :: cwk_segment
  sj_paths :: "string list"
  sj_path_index :: nat

definition path_at :: "string list \<Rightarrow> nat \<Rightarrow> string option" where
  "path_at ps i = (if i < length ps then Some (ps ! i) else None)"

definition get_last_segment_without_root ::
  "cwk_path_style \<Rightarrow> string \<Rightarrow> bool \<times> cwk_segment" where
  "get_last_segment_without_root st path =
     (case get_first_segment_without_root st path 0 of
        (False, segment) \<Rightarrow> (False, segment)
      | (True, segment) \<Rightarrow> (True, last_loop st segment))"

text \<open>
  The loop of \<open>get_first_segment_joined\<close>: \<open>get_first_segment\<close> (which strips a root) is
  tried on each fragment in turn until one has a segment.
\<close>

function first_joined_loop ::
  "cwk_path_style \<Rightarrow> cwk_segment_joined \<Rightarrow> bool \<times> cwk_segment_joined" where
  "first_joined_loop st sj =
     (case path_at (sj_paths sj) (sj_path_index sj) of
        None \<Rightarrow> (False, sj)
      | Some p \<Rightarrow>
          (case get_first_segment st p of
             (True, segment) \<Rightarrow> (True, sj\<lparr>sj_segment := segment\<rparr>)
           | (False, segment) \<Rightarrow>
               first_joined_loop st
                 (sj\<lparr>sj_segment := segment, sj_path_index := sj_path_index sj + 1\<rparr>)))"
  by pat_completeness auto
termination
  by (relation "measure (\<lambda>(st, sj). length (sj_paths sj) - sj_path_index sj)")
     (auto simp: path_at_def split: if_splits)

declare first_joined_loop.simps [simp del]

text \<open>
  \<open>get_first_segment_joined\<close> receives the struct to fill; its segment is written only
  when some fragment is inspected.
\<close>

definition get_first_segment_joined ::
  "cwk_path_style \<Rightarrow> string list \<Rightarrow> cwk_segment_joined \<Rightarrow> bool \<times> cwk_segment_joined" where
  "get_first_segment_joined st paths sj =
     first_joined_loop st (sj\<lparr>sj_path_index := 0, sj_paths := paths\<rparr>)"

text \<open>The \<open>do ... while (!result)\<close> loop of \<open>get_next_segment_joined\<close>.\<close>

function next_joined_loop ::
  "cwk_path_style \<Rightarrow> cwk_segment_joined \<Rightarrow> bool \<times> cwk_segment_joined" where
  "next_joined_loop st sj =
     (let sj = sj\<lparr>sj_path_index := sj_path_index sj + 1\<rparr>
      in case path_at (sj_paths sj) (sj_path_index sj) of
           None \<Rightarrow> (False, sj)
         | Some p \<Rightarrow>
             (case get_first_segment_without_root st p 0 of
                (True, segment) \<Rightarrow> (True, sj\<lparr>sj_segment := segment\<rparr>)
              | (False, segment) \<Rightarrow> next_joined_loop st (sj\<lparr>sj_segment := segment\<rparr>)))"
  by pat_completeness auto
termination
  by (relation "measure (\<lambda>(st, sj). length (sj_paths sj) - sj_path_index sj)")
     (auto simp: path_at_def split: if_splits)

declare next_joined_loop.simps [simp del]

definition get_next_segment_joined ::
  "cwk_path_style \<Rightarrow> cwk_segment_joined \<Rightarrow> bool \<times> cwk_segment_joined" where
  "get_next_segment_joined st sj =
     (if path_at (sj_paths sj) (sj_path_index sj) = None then (False, sj)
      else (case get_next_segment st (sj_segment sj) of
              (True, segment) \<Rightarrow> (True, sj\<lparr>sj_segment := segment\<rparr>)
            | (False, segment) \<Rightarrow> next_joined_loop st (sj\<lparr>sj_segment := segment\<rparr>)))"

text \<open>
  The \<open>do ... while (!result)\<close> loop of \<open>get_previous_segment_joined\<close>. After the
  decrement \<open>path_index\<close> is the index of a fragment in every state the code reaches; the
  model returns false where it is not.
\<close>

function prev_joined_loop ::
  "cwk_path_style \<Rightarrow> cwk_segment_joined \<Rightarrow> bool \<times> cwk_segment_joined" where
  "prev_joined_loop st sj =
     (if sj_path_index sj = 0 then (False, sj)
      else
        let sj = sj\<lparr>sj_path_index := sj_path_index sj - 1\<rparr>
        in case path_at (sj_paths sj) (sj_path_index sj) of
             None \<Rightarrow> (False, sj)
           | Some p \<Rightarrow>
               (case (if sj_path_index sj = 0 then get_last_segment st p
                      else get_last_segment_without_root st p) of
                  (True, segment) \<Rightarrow> (True, sj\<lparr>sj_segment := segment\<rparr>)
                | (False, segment) \<Rightarrow> prev_joined_loop st (sj\<lparr>sj_segment := segment\<rparr>)))"
  by pat_completeness auto
termination
  by (relation "measure (\<lambda>(st, sj). sj_path_index sj)") auto

declare prev_joined_loop.simps [simp del]

definition get_previous_segment_joined ::
  "cwk_path_style \<Rightarrow> cwk_segment_joined \<Rightarrow> bool \<times> cwk_segment_joined" where
  "get_previous_segment_joined st sj =
     (if path_at (sj_paths sj) 0 = None then (False, sj)
      else (case get_previous_segment st (sj_segment sj) of
              (True, segment) \<Rightarrow> (True, sj\<lparr>sj_segment := segment\<rparr>)
            | (False, segment) \<Rightarrow> prev_joined_loop st (sj\<lparr>sj_segment := segment\<rparr>)))"

subsection \<open>Progress of the joined iterator\<close>

lemma get_previous_segment_progress:
  assumes "get_previous_segment st s = (True, s')"
  shows "seg_begin s' < seg_begin s \<and> seg_path s' = seg_path s \<and>
         seg_segments s' = seg_segments s"
proof -
  from assms have gt: "seg_segments s < seg_begin s"
    by (auto simp: get_previous_segment_def Let_def split: if_splits)
  from assms gt obtain c where c: "prev_skip st (seg_path s) (seg_segments s) (seg_begin s) = Some c"
    by (auto simp: get_previous_segment_def Let_def split: option.splits)
  let ?b = "find_previous_stop st (seg_path s) (seg_segments s) c"
  from assms gt c have s': "s' = s\<lparr>seg_end := c + 1, seg_begin := ?b, seg_size := (c + 1) - ?b\<rparr>"
    by (auto simp: get_previous_segment_def Let_def)
  from prev_skip_Some[OF c] have "seg_segments s \<le> c" "c < seg_begin s"
    "\<not> is_separator st (char_at (seg_path s) c)" by auto
  with find_previous_stop_props[of "seg_segments s" c st "seg_path s"]
  have "?b < seg_begin s" by simp
  then show ?thesis by (simp add: s')
qed

lemma next_joined_loop_index:
  "next_joined_loop st sj = (True, sj') \<Longrightarrow>
     sj_path_index sj < sj_path_index sj' \<and> sj_path_index sj' < length (sj_paths sj') \<and>
     sj_paths sj' = sj_paths sj"
proof (induction "length (sj_paths sj) - sj_path_index sj" arbitrary: sj rule: less_induct)
  case less
  note 1 = less(1) less(2)
  let ?sj = "sj\<lparr>sj_path_index := sj_path_index sj + 1\<rparr>"
  from 1(2) obtain p where p: "path_at (sj_paths sj) (sj_path_index sj + 1) = Some p"
    by (subst (asm) next_joined_loop.simps) (auto simp: Let_def split: option.splits)
  then have lt: "sj_path_index sj + 1 < length (sj_paths sj)"
    by (auto simp: path_at_def split: if_splits)
  obtain b seg where f: "get_first_segment_without_root st p 0 = (b, seg)" by fastforce
  show ?case
  proof (cases b)
    case True
    with 1(2) p f have "sj' = ?sj\<lparr>sj_segment := seg\<rparr>"
      by (subst (asm) next_joined_loop.simps) (simp add: Let_def)
    with lt show ?thesis by simp
  next
    case False
    with 1(2) p f have r: "next_joined_loop st (?sj\<lparr>sj_segment := seg\<rparr>) = (True, sj')"
      by (subst (asm) next_joined_loop.simps) (simp add: Let_def)
    have "length (sj_paths sj) - Suc (sj_path_index sj) < length (sj_paths sj) - sj_path_index sj"
      using lt by simp
    from 1(1)[OF _ r] this show ?thesis by auto
  qed
qed

lemma prev_joined_loop_index:
  "prev_joined_loop st sj = (True, sj') \<Longrightarrow>
     sj_path_index sj' < sj_path_index sj \<and> sj_paths sj' = sj_paths sj"
proof (induction "sj_path_index sj" arbitrary: sj rule: less_induct)
  case less
  note 1 = less(1) less(2)
  from 1(2) have nz: "sj_path_index sj \<noteq> 0"
    by (subst (asm) prev_joined_loop.simps) (auto split: if_splits)
  let ?sj = "sj\<lparr>sj_path_index := sj_path_index sj - 1\<rparr>"
  from 1(2) nz obtain p where p: "path_at (sj_paths sj) (sj_path_index sj - 1) = Some p"
    by (subst (asm) prev_joined_loop.simps) (auto simp: Let_def split: option.splits)
  obtain b seg where f: "(if sj_path_index ?sj = 0 then get_last_segment st p
                      else get_last_segment_without_root st p) = (b, seg)" by fastforce
  show ?case
  proof (cases b)
    case True
    with 1(2) nz p f have "sj' = ?sj\<lparr>sj_segment := seg\<rparr>"
      by (subst (asm) prev_joined_loop.simps) (simp add: Let_def)
    with nz show ?thesis by simp
  next
    case False
    with 1(2) nz p f have r: "prev_joined_loop st (?sj\<lparr>sj_segment := seg\<rparr>) = (True, sj')"
      by (subst (asm) prev_joined_loop.simps) (simp add: Let_def)
    from 1(1)[OF _ r] nz show ?thesis by auto
  qed
qed

lemma get_next_segment_joined_progress:
  assumes "get_next_segment_joined st sj = (True, sj')"
  shows "sj_paths sj' = sj_paths sj \<and>
         (sj_path_index sj < sj_path_index sj' \<and> sj_path_index sj' < length (sj_paths sj) \<or>
          sj_path_index sj' = sj_path_index sj \<and>
          seg_path (sj_segment sj') = seg_path (sj_segment sj) \<and>
          seg_begin (sj_segment sj) + seg_size (sj_segment sj) <
            seg_begin (sj_segment sj') + seg_size (sj_segment sj') \<and>
          seg_begin (sj_segment sj') + seg_size (sj_segment sj') \<le>
            length (seg_path (sj_segment sj)))"
proof -
  obtain b seg where n: "get_next_segment st (sj_segment sj) = (b, seg)" by fastforce
  from assms have ne: "path_at (sj_paths sj) (sj_path_index sj) \<noteq> None"
    by (auto simp: get_next_segment_joined_def split: if_splits)
  show ?thesis
  proof (cases b)
    case True
    with assms n ne have "sj' = sj\<lparr>sj_segment := seg\<rparr>"
      by (simp add: get_next_segment_joined_def)
    with get_next_segment_progress[of st "sj_segment sj" seg] n True show ?thesis by simp
  next
    case False
    with assms n ne have "next_joined_loop st (sj\<lparr>sj_segment := seg\<rparr>) = (True, sj')"
      by (simp add: get_next_segment_joined_def)
    from next_joined_loop_index[OF this] show ?thesis by auto
  qed
qed

lemma get_previous_segment_joined_progress:
  assumes "get_previous_segment_joined st sj = (True, sj')"
  shows "sj_paths sj' = sj_paths sj \<and>
         (sj_path_index sj' < sj_path_index sj \<or>
          sj_path_index sj' = sj_path_index sj \<and>
          seg_begin (sj_segment sj') < seg_begin (sj_segment sj))"
proof -
  obtain b seg where n: "get_previous_segment st (sj_segment sj) = (b, seg)" by fastforce
  from assms have ne: "path_at (sj_paths sj) 0 \<noteq> None"
    by (auto simp: get_previous_segment_joined_def split: if_splits)
  show ?thesis
  proof (cases b)
    case True
    with assms n ne have "sj' = sj\<lparr>sj_segment := seg\<rparr>"
      by (simp add: get_previous_segment_joined_def)
    with get_previous_segment_progress[of st "sj_segment sj" seg] n True show ?thesis by simp
  next
    case False
    with assms n ne have "prev_joined_loop st (sj\<lparr>sj_segment := seg\<rparr>) = (True, sj')"
      by (simp add: get_previous_segment_joined_def)
    from prev_joined_loop_index[OF this] show ?thesis by auto
  qed
qed

section \<open>Visibility resolver\<close>

text \<open>
  The counters of the two loops are C \<open>int\<close>s: 32-bit words, read as signed numbers where
  the code compares them with zero. Incrementing the largest and decrementing the
  smallest value wraps around.
\<close>

type_synonym c_int = "32 word"

text \<open>
  The loop of \<open>segment_back_will_be_removed\<close>, with the counter as an argument. The
  joined segment it walks is the caller's copy; only the answer is returned.
\<close>

function back_loop :: "cwk_path_style \<Rightarrow> cwk_segment_joined \<Rightarrow> c_int \<Rightarrow> bool" where
  "back_loop st sj counter =
     (case get_previous_segment_joined st sj of
        (False, sj') \<Rightarrow> False
      | (True, sj') \<Rightarrow>
          let type = get_segment_type (sj_segment sj')
          in if type = CWK_NORMAL then
               (let counter = counter + 1
                in if sint counter > 0 then True else back_loop st sj' counter)
             else if type = CWK_BACK then back_loop st sj' (counter - 1)
             else back_loop st sj' counter)"
  by pat_completeness auto
termination
  by (relation "inv_image (less_than <*lex*> less_than)
        (\<lambda>(st, sj, c). (sj_path_index sj, seg_begin (sj_segment sj)))")
     (auto dest!: get_previous_segment_joined_progress[OF sym])

declare back_loop.simps [simp del]

definition segment_back_will_be_removed :: "cwk_path_style \<Rightarrow> cwk_segment_joined \<Rightarrow> bool" where
  "segment_back_will_be_removed st sj = back_loop st sj 0"

text \<open>The loop of \<open>segment_normal_will_be_removed\<close>.\<close>

function normal_loop :: "cwk_path_style \<Rightarrow> cwk_segment_joined \<Rightarrow> c_int \<Rightarrow> bool" where
  "normal_loop st sj counter =
     (case get_next_segment_joined st sj of
        (False, sj') \<Rightarrow> False
      | (True, sj') \<Rightarrow>
          let type = get_segment_type (sj_segment sj')
          in if type = CWK_NORMAL then normal_loop st sj' (counter + 1)
             else if type = CWK_BACK then
               (let counter = counter - 1
                in if sint counter < 0 then True else normal_loop st sj' counter)
             else normal_loop st sj' counter)"
  by pat_completeness auto
termination
  by (relation "inv_image (less_than <*lex*> less_than)
        (\<lambda>(st, sj, c). (length (sj_paths sj) - sj_path_index sj,
           length (seg_path (sj_segment sj)) -
             (seg_begin (sj_segment sj) + seg_size (sj_segment sj))))")
     (auto dest!: get_next_segment_joined_progress[OF sym])

declare normal_loop.simps [simp del]

definition segment_normal_will_be_removed :: "cwk_path_style \<Rightarrow> cwk_segment_joined \<Rightarrow> bool" where
  "segment_normal_will_be_removed st sj = normal_loop st sj 0"

definition segment_will_be_removed ::
  "cwk_path_style \<Rightarrow> cwk_segment_joined \<Rightarrow> bool \<Rightarrow> bool" where
  "segment_will_be_removed st sj absolute =
     (let type = get_segment_type (sj_segment sj)
      in if type = CWK_CURRENT then True
         else if type = CWK_BACK \<and> absolute then True
         else if type = CWK_BACK then segment_back_will_be_removed st sj
         else segment_normal_will_be_removed st sj)"

text \<open>\<open>segment_joined_skip_invisible\<close>: the flag and the joined segment it leaves.\<close>

function segment_joined_skip_invisible ::
  "cwk_path_style \<Rightarrow> cwk_segment_joined \<Rightarrow> bool \<Rightarrow> bool \<times> cwk_segment_joined" where
  "segment_joined_skip_invisible st sj absolute =
     (if segment_will_be_removed st sj absolute then
        (case get_next_segment_joined st sj of
           (False, sj') \<Rightarrow> (False, sj')
         | (True, sj') \<Rightarrow> segment_joined_skip_invisible st sj' absolute)
      else (True, sj))"
  by pat_completeness auto
termination
  by (relation "inv_image (less_than <*lex*> less_than)
        (\<lambda>(st, sj, a). (length (sj_paths sj) - sj_path_index sj,
           length (seg_path (sj_segment sj)) -
             (seg_begin (sj_segment sj) + seg_size (sj_segment sj))))")
     (auto dest!: get_next_segment_joined_progress[OF sym])

declare segment_joined_skip_invisible.simps [simp del]

subsection \<open>The counter rules of the specification\<close>

text \<open>
  The types of the segments the joined iterator yields when it walks backward from a
  segment (nearest first), and when it walks forward from it (the segment itself
  excluded in both).
\<close>

function types_before :: "cwk_path_style \<Rightarrow> cwk_segment_joined \<Rightarrow> cwk_segment_type list" where
  "types_before st sj =
     (case get_previous_segment_joined st sj of
        (False, sj') \<Rightarrow> []
      | (True, sj') \<Rightarrow> get_segment_type (sj_segment sj') # types_before st sj')"
  by pat_completeness auto
termination
  by (relation "inv_image (less_than <*lex*> less_than)
        (\<lambda>(st, sj). (sj_path_index sj, seg_begin (sj_segment sj)))")
     (auto dest!: get_previous_segment_joined_progress[OF sym])

declare types_before.simps [simp del]

function types_after :: "cwk_path_style \<Rightarrow> cwk_segment_joined \<Rightarrow> cwk_segment_type list" where
  "types_after st sj =
     (case get_next_segment_joined st sj of
        (False, sj') \<Rightarrow> []
      | (True, sj') \<Rightarrow> get_segment_type (sj_segment sj') # types_after st sj')"
  by pat_completeness auto
termination
  by (relation "inv_image (less_than <*lex*> less_than)
        (\<lambda>(st, sj). (length (sj_paths sj) - sj_path_index sj,
           length (seg_path (sj_segment sj)) -
             (seg_begin (sj_segment sj) + seg_size (sj_segment sj))))")
     (auto dest!: get_next_segment_joined_progress[OF sym])

declare types_after.simps [simp del]

text \<open>
  The rules in the words of the specification. \<open>spec_counter ts n\<close> is the value of the
  counter after \<open>n\<close> segments of the walk \<open>ts\<close>: incremented on each Normal segment,
  decremented on each Back segment. A Back segment of a relative path is elided iff the
  counter goes positive somewhere on the backward walk; a Normal segment is elided iff
  the counter goes negative somewhere on the forward walk.
\<close>

definition spec_counter :: "cwk_segment_type list \<Rightarrow> nat \<Rightarrow> int" where
  "spec_counter ts n =
     int (count_list (take n ts) CWK_NORMAL) - int (count_list (take n ts) CWK_BACK)"

definition spec_back_elided :: "cwk_segment_type list \<Rightarrow> bool" where
  "spec_back_elided before = (\<exists>n \<in> {0..length before}. 0 < spec_counter before n)"

definition spec_normal_elided :: "cwk_segment_type list \<Rightarrow> bool" where
  "spec_normal_elided after = (\<exists>n \<in> {0..length after}. spec_counter after n < 0)"

definition spec_elided ::
  "bool \<Rightarrow> cwk_segment_type \<Rightarrow> cwk_segment_type list \<Rightarrow> cwk_segment_type list \<Rightarrow> bool" where
  "spec_elided absolute t before after =
     (case t of
        CWK_CURRENT \<Rightarrow> True
      | CWK_BACK \<Rightarrow> absolute \<or> spec_back_elided before
      | CWK_NORMAL \<Rightarrow> spec_normal_elided after)"

subsection \<open>The resolver follows the counter rules\<close>

text \<open>The two loops as walks over the list of types.\<close>

fun walk_back :: "c_int \<Rightarrow> cwk_segment_type list \<Rightarrow> bool" where
  "walk_back c [] = False"
| "walk_back c (t # ts) =
     (if t = CWK_NORMAL then (sint (c + 1) > 0 \<or> walk_back (c + 1) ts)
      else if t = CWK_BACK then walk_back (c - 1) ts
      else walk_back c ts)"

fun walk_forward :: "c_int \<Rightarrow> cwk_segment_type list \<Rightarrow> bool" where
  "walk_forward c [] = False"
| "walk_forward c (t # ts) =
     (if t = CWK_NORMAL then walk_forward (c + 1) ts
      else if t = CWK_BACK then (sint (c - 1) < 0 \<or> walk_forward (c - 1) ts)
      else walk_forward c ts)"

lemma back_loop_walk: "back_loop st sj c = walk_back c (types_before st sj)"
proof (induction "types_before st sj" arbitrary: sj c)
  case Nil
  then have "fst (get_previous_segment_joined st sj) = False"
    by (subst (asm) types_before.simps) (auto split: prod.splits bool.splits)
  then have "back_loop st sj c = False"
    by (subst back_loop.simps) (auto split: prod.splits bool.splits)
  with Nil show ?case by simp
next
  case (Cons t ts)
  from Cons(2) obtain sj' where p: "get_previous_segment_joined st sj = (True, sj')"
    and t: "t = get_segment_type (sj_segment sj')" and ts: "ts = types_before st sj'"
    by (subst (asm) types_before.simps) (auto split: prod.splits bool.splits)
  have ih: "\<And>c. back_loop st sj' c = walk_back c ts" using Cons(1)[OF ts] ts by simp
  have "back_loop st sj c = walk_back c (t # ts)"
    by (subst back_loop.simps) (simp add: p Let_def t[symmetric] ih)
  with Cons(2) show ?case by simp
qed

lemma normal_loop_walk: "normal_loop st sj c = walk_forward c (types_after st sj)"
proof (induction "types_after st sj" arbitrary: sj c)
  case Nil
  then have "fst (get_next_segment_joined st sj) = False"
    by (subst (asm) types_after.simps) (auto split: prod.splits bool.splits)
  then have "normal_loop st sj c = False"
    by (subst normal_loop.simps) (auto split: prod.splits bool.splits)
  with Nil show ?case by simp
next
  case (Cons t ts)
  from Cons(2) obtain sj' where p: "get_next_segment_joined st sj = (True, sj')"
    and t: "t = get_segment_type (sj_segment sj')" and ts: "ts = types_after st sj'"
    by (subst (asm) types_after.simps) (auto split: prod.splits bool.splits)
  have ih: "\<And>c. normal_loop st sj' c = walk_forward c ts" using Cons(1)[OF ts] ts by simp
  have "normal_loop st sj c = walk_forward c (t # ts)"
    by (subst normal_loop.simps) (simp add: p Let_def t[symmetric] ih)
  with Cons(2) show ?case by simp
qed

lemma spec_counter_0 [simp]: "spec_counter ts 0 = 0"
  by (simp add: spec_counter_def)

lemma spec_counter_Cons:
  "spec_counter (t # ts) (Suc n) =
     (if t = CWK_NORMAL then 1 else if t = CWK_BACK then -1 else 0) + spec_counter ts n"
  by (simp add: spec_counter_def)

lemma ex_upto_Suc:
  "(\<exists>n \<in> {0..Suc k}. P n) \<longleftrightarrow> P 0 \<or> (\<exists>n \<in> {0..k}. P (Suc n))"
proof
  assume "\<exists>n \<in> {0..Suc k}. P n"
  then obtain n where n: "n \<le> Suc k" "P n" by auto
  show "P 0 \<or> (\<exists>n \<in> {0..k}. P (Suc n))"
  proof (cases n)
    case 0 with n show ?thesis by simp
  next
    case (Suc m) with n show ?thesis by auto
  qed
next
  assume "P 0 \<or> (\<exists>n \<in> {0..k}. P (Suc n))"
  then show "\<exists>n \<in> {0..Suc k}. P n" by auto
qed

text \<open>The counter does not wrap on a walk of fewer than \<open>2^31\<close> segments.\<close>

lemma sint_succ: "sint (c :: c_int) < 2 ^ 31 - 1 \<Longrightarrow> sint (c + 1) = sint c + 1"
  using sint_ge[of c] by (simp add: sint_word_ariths signed_take_bit_int_eq_self_iff)

lemma sint_pred: "- (2 ^ 31) < sint (c :: c_int) \<Longrightarrow> sint (c - 1) = sint c - 1"
  using sint_lt[of c] by (simp add: sint_word_ariths signed_take_bit_int_eq_self_iff)

lemma walk_back_spec:
  "sint c \<le> 0 \<Longrightarrow> int (length ts) - sint c < 2 ^ 31 \<Longrightarrow>
     walk_back c ts \<longleftrightarrow> (\<exists>n \<in> {0..length ts}. 0 < sint c + spec_counter ts n)"
proof (induction ts arbitrary: c)
  case Nil
  then show ?case by simp
next
  case (Cons t ts)
  have up: "sint (c + 1) = sint c + 1" using Cons(2) by (intro sint_succ) simp
  have dn: "sint (c - 1) = sint c - 1" using Cons(2,3) by (intro sint_pred) simp
  show ?case
  proof (cases "t = CWK_NORMAL \<and> sint c = 0")
    case True
    have "0 < sint c + spec_counter (t # ts) (Suc 0)" using True by (simp add: spec_counter_Cons)
    then have "\<exists>n \<in> {0..length (t # ts)}. 0 < sint c + spec_counter (t # ts) n"
      by (intro bexI[of _ "Suc 0"]) auto
    with True up show ?thesis by simp
  next
    case False
    define d :: int where "d = (if t = CWK_NORMAL then 1 else if t = CWK_BACK then -1 else 0)"
    define c' :: c_int where
      "c' = (if t = CWK_NORMAL then c + 1 else if t = CWK_BACK then c - 1 else c)"
    have s': "sint c' = sint c + d" using up dn by (simp add: c'_def d_def)
    have le: "sint c' \<le> 0" using False Cons(2) by (auto simp: s' d_def)
    have bd: "int (length ts) - sint c' < 2 ^ 31" using Cons(3) by (auto simp: s' d_def)
    have "walk_back c (t # ts) = walk_back c' ts"
      using False Cons(2) up by (auto simp: c'_def)
    also have "\<dots> \<longleftrightarrow> (\<exists>n \<in> {0..length ts}. 0 < sint c' + spec_counter ts n)"
      by (rule Cons(1)[OF le bd])
    also have "\<dots> \<longleftrightarrow> (\<exists>n \<in> {0..length ts}. 0 < sint c + spec_counter (t # ts) (Suc n))"
      by (simp add: spec_counter_Cons s' d_def add.assoc)
    also have "\<dots> \<longleftrightarrow> (\<exists>n \<in> {0..length (t # ts)}. 0 < sint c + spec_counter (t # ts) n)"
      using Cons(2) by (simp add: ex_upto_Suc del: atLeastAtMost_iff)
    finally show ?thesis .
  qed
qed

lemma walk_forward_spec:
  "0 \<le> sint c \<Longrightarrow> sint c + int (length ts) < 2 ^ 31 \<Longrightarrow>
     walk_forward c ts \<longleftrightarrow> (\<exists>n \<in> {0..length ts}. sint c + spec_counter ts n < 0)"
proof (induction ts arbitrary: c)
  case Nil
  then show ?case by simp
next
  case (Cons t ts)
  have up: "sint (c + 1) = sint c + 1" using Cons(2,3) by (intro sint_succ) simp
  have dn: "sint (c - 1) = sint c - 1" using Cons(2) by (intro sint_pred) simp
  show ?case
  proof (cases "t = CWK_BACK \<and> sint c = 0")
    case True
    have "sint c + spec_counter (t # ts) (Suc 0) < 0" using True by (simp add: spec_counter_Cons)
    then have "\<exists>n \<in> {0..length (t # ts)}. sint c + spec_counter (t # ts) n < 0"
      by (intro bexI[of _ "Suc 0"]) auto
    with True dn show ?thesis by simp
  next
    case False
    define d :: int where "d = (if t = CWK_NORMAL then 1 else if t = CWK_BACK then -1 else 0)"
    define c' :: c_int where
      "c' = (if t = CWK_NORMAL then c + 1 else if t = CWK_BACK then c - 1 else c)"
    have s': "sint c' = sint c + d" using up dn by (simp add: c'_def d_def)
    have le: "0 \<le> sint c'" using False Cons(2) by (auto simp: s' d_def)
    have bd: "sint c' + int (length ts) < 2 ^ 31" using Cons(3) by (auto simp: s' d_def)
    have "walk_forward c (t # ts) = walk_forward c' ts"
      using False Cons(2) dn by (auto simp: c'_def)
    also have "\<dots> \<longleftrightarrow> (\<exists>n \<in> {0..length ts}. sint c' + spec_counter ts n < 0)"
      by (rule Cons(1)[OF le bd])
    also have "\<dots> \<longleftrightarrow> (\<exists>n \<in> {0..length ts}. sint c + spec_counter (t # ts) (Suc n) < 0)"
      by (simp add: spec_counter_Cons s' d_def add.assoc)
    also have "\<dots> \<longleftrightarrow> (\<exists>n \<in> {0..length (t # ts)}. sint c + spec_counter (t # ts) n < 0)"
      using Cons(2) by (simp add: ex_upto_Suc del: atLeastAtMost_iff)
    finally show ?thesis .
  qed
qed

lemma segment_will_be_removed_walk:
  "segment_will_be_removed st sj absolute =
     (case get_segment_type (sj_segment sj) of
        CWK_CURRENT \<Rightarrow> True
      | CWK_BACK \<Rightarrow> absolute \<or> walk_back 0 (types_before st sj)
      | CWK_NORMAL \<Rightarrow> walk_forward 0 (types_after st sj))"
  by (cases "get_segment_type (sj_segment sj)")
     (simp_all add: segment_will_be_removed_def Let_def segment_back_will_be_removed_def
        segment_normal_will_be_removed_def back_loop_walk normal_loop_walk)

lemma segment_back_will_be_removed_spec:
  "length (types_before st sj) < 2 ^ 31 \<Longrightarrow>
     segment_back_will_be_removed st sj = spec_back_elided (types_before st sj)"
  using walk_back_spec[of 0 "types_before st sj"]
  by (simp add: segment_back_will_be_removed_def back_loop_walk spec_back_elided_def)

lemma segment_normal_will_be_removed_spec:
  "length (types_after st sj) < 2 ^ 31 \<Longrightarrow>
     segment_normal_will_be_removed st sj = spec_normal_elided (types_after st sj)"
  using walk_forward_spec[of 0 "types_after st sj"]
  by (simp add: segment_normal_will_be_removed_def normal_loop_walk spec_normal_elided_def)

lemma segment_will_be_removed_spec:
  assumes "length (types_before st sj) < 2 ^ 31" "length (types_after st sj) < 2 ^ 31"
  shows "segment_will_be_removed st sj absolute =
     spec_elided absolute (get_segment_type (sj_segment sj))
       (types_before st sj) (types_after st sj)"
  using assms
  by (cases "get_segment_type (sj_segment sj)")
     (simp_all add: segment_will_be_removed_def spec_elided_def Let_def
        segment_back_will_be_removed_spec segment_normal_will_be_removed_spec)

text \<open>
  Claim C1, amended. For every joined segment with fewer than \<open>2^31\<close> segments before it
  and fewer than \<open>2^31\<close> segments after it in the stream, and every absoluteness flag,
  \<open>segment_will_be_removed\<close> decides as the counter rules of the specification do: a
  Current segment is elided; a Back segment is elided when the path is absolute; a Back
  segment of a relative path is elided iff on the walk backward from it
  (\<open>get_previous_segment_joined\<close>, up to the start) the counter, incremented on Normal and
  decremented on Back segments, goes positive; a Normal segment is elided iff on the walk
  forward from it (\<open>get_next_segment_joined\<close>, the segment itself excluded, up to the end
  of the stream) the counter goes negative. On longer streams the 32-bit counter of the
  code can wrap around.
\<close>

theorem resolver_follows_counter_rules:
  assumes "length (types_before st sj) < 2 ^ 31" "length (types_after st sj) < 2 ^ 31"
  shows "segment_will_be_removed st sj absolute =
     spec_elided absolute (get_segment_type (sj_segment sj))
       (types_before st sj) (types_after st sj)"
  using assms by (rule segment_will_be_removed_spec)

theorem resolver_follows_counter_rules_witness:
  "types_before CWK_STYLE_UNIX
     \<lparr>sj_segment = \<lparr>seg_path = ''a/../b'', seg_segments = 0, seg_begin = 2, seg_end = 4,
                     seg_size = 2\<rparr>,
      sj_paths = [''a/../b''], sj_path_index = 0\<rparr> = [CWK_NORMAL] \<and>
   types_after CWK_STYLE_UNIX
     \<lparr>sj_segment = \<lparr>seg_path = ''a/../b'', seg_segments = 0, seg_begin = 2, seg_end = 4,
                     seg_size = 2\<rparr>,
      sj_paths = [''a/../b''], sj_path_index = 0\<rparr> = [CWK_NORMAL] \<and>
   segment_will_be_removed CWK_STYLE_UNIX
     \<lparr>sj_segment = \<lparr>seg_path = ''a/../b'', seg_segments = 0, seg_begin = 2, seg_end = 4,
                     seg_size = 2\<rparr>,
      sj_paths = [''a/../b''], sj_path_index = 0\<rparr> False \<and>
   spec_elided False CWK_BACK [CWK_NORMAL] [CWK_NORMAL]"
proof -
  let ?sj = "\<lparr>sj_segment = \<lparr>seg_path = ''a/../b'', seg_segments = 0, seg_begin = 2,
                              seg_end = 4, seg_size = 2\<rparr>,
              sj_paths = [''a/../b''], sj_path_index = 0\<rparr>"
  have tb: "types_before CWK_STYLE_UNIX ?sj = [CWK_NORMAL]" by code_simp
  have ta: "types_after CWK_STYLE_UNIX ?sj = [CWK_NORMAL]" by code_simp
  have ty: "get_segment_type (sj_segment ?sj) = CWK_BACK" by code_simp
  have rm: "segment_will_be_removed CWK_STYLE_UNIX ?sj False" by code_simp
  have b1: "length (types_before CWK_STYLE_UNIX ?sj) < 2 ^ 31" unfolding tb by simp
  have b2: "length (types_after CWK_STYLE_UNIX ?sj) < 2 ^ 31" unfolding ta by simp
  from resolver_follows_counter_rules[OF b1 b2, of False] rm
  have "spec_elided False CWK_BACK [CWK_NORMAL] [CWK_NORMAL]" unfolding tb ta ty by simp
  with tb ta rm show ?thesis by simp
qed

section \<open>Buffer output protocol\<close>

text \<open>
  The caller's buffer is a region of memory read by offset: a function from offsets to
  bytes. It has no length of its own; \<open>buffer_size\<close> is the capacity the caller passes, and
  the offsets at and beyond it stand for memory that is not the buffer's. An operation
  returns the memory it leaves together with its \<open>size_t\<close> result. The path strings are
  values: the model covers calls in which the buffer does not overlap the input strings.
\<close>

type_synonym buffer = "nat \<Rightarrow> char"

definition memmove :: "buffer \<Rightarrow> nat \<Rightarrow> string \<Rightarrow> nat \<Rightarrow> nat \<Rightarrow> buffer" where
  "memmove buffer position str off n =
     (\<lambda>i. if position \<le> i \<and> i < position + n
          then char_at str (off + (i - position)) else buffer i)"

definition output_sized ::
  "buffer \<Rightarrow> nat \<Rightarrow> nat \<Rightarrow> string \<Rightarrow> nat \<Rightarrow> nat \<Rightarrow> buffer \<times> nat" where
  "output_sized buffer buffer_size position str off len =
     (let amount_written =
            (if buffer_size > position + len then len
             else if buffer_size > position then buffer_size - position
             else 0)
      in (if amount_written > 0 then memmove buffer position str off amount_written
          else buffer,
          len))"

definition output_current :: "buffer \<Rightarrow> nat \<Rightarrow> nat \<Rightarrow> buffer \<times> nat" where
  "output_current buffer buffer_size position =
     output_sized buffer buffer_size position ''.'' 0 1"

definition output_back :: "buffer \<Rightarrow> nat \<Rightarrow> nat \<Rightarrow> buffer \<times> nat" where
  "output_back buffer buffer_size position =
     output_sized buffer buffer_size position ''..'' 0 2"

definition output_separator ::
  "cwk_path_style \<Rightarrow> buffer \<Rightarrow> nat \<Rightarrow> nat \<Rightarrow> buffer \<times> nat" where
  "output_separator st buffer buffer_size position =
     output_sized buffer buffer_size position (separators st) 0 1"

definition output_dot :: "buffer \<Rightarrow> nat \<Rightarrow> nat \<Rightarrow> buffer \<times> nat" where
  "output_dot buffer buffer_size position =
     output_sized buffer buffer_size position ''.'' 0 1"

text \<open>\<open>strlen\<close> of the string that starts at an offset.\<close>

function strlen :: "string \<Rightarrow> nat \<Rightarrow> nat" where
  "strlen str off = (if char_at str off = NUL then 0 else 1 + strlen str (off + 1))"
  by pat_completeness auto
termination
  by (relation "measure (\<lambda>(str, off). length str - off)") (auto dest: char_at_neq_NUL_lt)

declare strlen.simps [simp del]

text \<open>The function \<open>output\<close> of the source (the name is reserved here).\<close>

definition output_str :: "buffer \<Rightarrow> nat \<Rightarrow> nat \<Rightarrow> string \<Rightarrow> nat \<Rightarrow> buffer \<times> nat" where
  "output_str buffer buffer_size position str off =
     output_sized buffer buffer_size position str off (strlen str off)"

definition terminate_output :: "buffer \<Rightarrow> nat \<Rightarrow> nat \<Rightarrow> buffer" where
  "terminate_output buffer buffer_size pos =
     (if buffer_size > 0 then
        (if pos \<ge> buffer_size then buffer(buffer_size - 1 := NUL) else buffer(pos := NUL))
      else buffer)"

section \<open>String comparison\<close>

text \<open>\<open>tolower\<close> of the C locale.\<close>

definition tolower :: "char \<Rightarrow> char" where
  "tolower c =
     (let n = (of_char c :: nat) in if 65 \<le> n \<and> n \<le> 90 then char_of (n + 32) else c)"

text \<open>The case-insensitive loop of \<open>is_string_equal\<close> and its final test.\<close>

function string_equal_loop :: "string \<Rightarrow> nat \<Rightarrow> string \<Rightarrow> nat \<Rightarrow> nat \<Rightarrow> bool" where
  "string_equal_loop first i second j n =
     (if char_at first i \<noteq> NUL \<and> char_at second j \<noteq> NUL \<and> n > 0 then
        (if tolower (char_at first i) \<noteq> tolower (char_at second j) then False
         else string_equal_loop first (i + 1) second (j + 1) (n - 1))
      else n = 0 \<or> (char_at first i = NUL \<and> char_at second j = NUL))"
  by pat_completeness auto
termination
  by (relation "measure (\<lambda>(first, i, second, j, n). n)") auto

declare string_equal_loop.simps [simp del]

definition is_string_equal ::
  "cwk_path_style \<Rightarrow> string \<Rightarrow> nat \<Rightarrow> string \<Rightarrow> nat \<Rightarrow> nat \<Rightarrow> bool" where
  "is_string_equal st first i second j n =
     (if st = CWK_STYLE_UNIX then strncmp_is_0 first i second j n
      else string_equal_loop first i second j n)"

section \<open>High-level operations\<close>

subsection \<open>Progress of the forward walk\<close>

definition fwd_rel :: "(cwk_segment_joined \<times> cwk_segment_joined) set" where
  "fwd_rel = inv_image (less_than <*lex*> less_than)
     (\<lambda>sj. (length (sj_paths sj) - sj_path_index sj,
            length (seg_path (sj_segment sj)) -
              (seg_begin (sj_segment sj) + seg_size (sj_segment sj))))"

lemma wf_fwd_rel: "wf fwd_rel"
  unfolding fwd_rel_def by (intro wf_inv_image wf_lex_prod wf_less_than)

lemma trans_fwd_rel: "(a, b) \<in> fwd_rel \<Longrightarrow> (b, c) \<in> fwd_rel \<Longrightarrow> (a, c) \<in> fwd_rel"
  by (auto simp: fwd_rel_def)

lemma next_joined_fwd_rel:
  "get_next_segment_joined st sj = (True, sj') \<Longrightarrow> (sj', sj) \<in> fwd_rel"
  by (auto simp: fwd_rel_def dest!: get_next_segment_joined_progress)

lemma skip_invisible_fwd_rel:
  "segment_joined_skip_invisible st sj absolute = (True, sj') \<Longrightarrow>
     sj' = sj \<or> (sj', sj) \<in> fwd_rel"
proof (induction st sj absolute rule: segment_joined_skip_invisible.induct)
  case (1 st sj absolute)
  show ?case
  proof (cases "segment_will_be_removed st sj absolute")
    case False
    with 1(2) show ?thesis by (subst (asm) segment_joined_skip_invisible.simps) simp
  next
    case True
    obtain b sj1 where n: "get_next_segment_joined st sj = (b, sj1)" by fastforce
    from 1(2) True n have "(if b then segment_joined_skip_invisible st sj1 absolute
        else (False, sj1)) = (True, sj')"
      by (subst (asm) segment_joined_skip_invisible.simps) (simp split: bool.splits)
    then have b: "b" and r: "segment_joined_skip_invisible st sj1 absolute = (True, sj')"
      by (simp_all split: if_splits)
    from n b have step: "(sj1, sj) \<in> fwd_rel" by (simp add: next_joined_fwd_rel)
    from 1(1)[OF True _ _ r] n b have "sj' = sj1 \<or> (sj', sj1) \<in> fwd_rel" by simp
    with step show ?thesis using trans_fwd_rel by blast
  qed
qed

lemma loop_step_fwd_rel:
  assumes "(True, sj1) = segment_joined_skip_invisible st sj absolute"
    and "(True, sj2) = get_next_segment_joined st sj1"
  shows "(sj2, sj) \<in> fwd_rel"
  using skip_invisible_fwd_rel[OF assms(1)[symmetric]] next_joined_fwd_rel[OF assms(2)[symmetric]]
    trans_fwd_rel by blast

subsection \<open>Join and normalize\<close>

text \<open>
  The content of a local \<open>cwk_segment_joined\<close> before it is initialized. Every field is
  written before it is read when the array of fragments has a first entry.
\<close>

definition uninitialized_sj :: cwk_segment_joined where
  "uninitialized_sj =
     \<lparr>sj_segment = \<lparr>seg_path = [], seg_segments = 0, seg_begin = 0, seg_end = 0,
                     seg_size = 0\<rparr>,
      sj_paths = [], sj_path_index = 0\<rparr>"

text \<open>
  The body of the \<open>do ... while (get_next_segment_joined(&sj))\<close> loop of
  \<open>join_and_normalize_multiple\<close>: a segment that will be removed is passed over
  (\<open>continue\<close>), any other is written after a separator if a segment was written
  before. It returns the buffer, \<open>pos\<close> and \<open>has_segment_output\<close>.
\<close>

definition join_body ::
  "cwk_path_style \<Rightarrow> cwk_segment_joined \<Rightarrow> bool \<Rightarrow> buffer \<Rightarrow> nat \<Rightarrow> nat \<Rightarrow> bool
     \<Rightarrow> buffer \<times> nat \<times> bool" where
  "join_body st sj absolute buffer buffer_size pos has_segment_output =
     (if segment_will_be_removed st sj absolute
      then (buffer, pos, has_segment_output)
      else
        let (buffer, pos) =
              (if has_segment_output
               then (let (b, n) = output_separator st buffer buffer_size pos
                     in (b, pos + n))
               else (buffer, pos));
            (b, n) = output_sized buffer buffer_size pos
                       (seg_path (sj_segment sj)) (seg_begin (sj_segment sj))
                       (seg_size (sj_segment sj))
        in (b, pos + n, True))"

text \<open>The loop itself.\<close>

function join_loop ::
  "cwk_path_style \<Rightarrow> cwk_segment_joined \<Rightarrow> bool \<Rightarrow> buffer \<Rightarrow> nat \<Rightarrow> nat \<Rightarrow> bool
     \<Rightarrow> buffer \<times> nat \<times> bool" where
  "join_loop st sj absolute buffer buffer_size pos has_segment_output =
     (case join_body st sj absolute buffer buffer_size pos has_segment_output of
        (buffer, pos, has_segment_output) \<Rightarrow>
          (case get_next_segment_joined st sj of
             (True, sj') \<Rightarrow>
               join_loop st sj' absolute buffer buffer_size pos has_segment_output
           | (False, sj') \<Rightarrow> (buffer, pos, has_segment_output)))"
  by pat_completeness auto
termination
  by (relation "inv_image fwd_rel (\<lambda>(st, sj, a, b, n, p, h). sj)")
     (simp add: wf_fwd_rel wf_inv_image, (clarsimp, rule next_joined_fwd_rel, erule sym))

declare join_loop.simps [simp del]

text \<open>
  \<open>join_and_normalize_multiple\<close> reads \<open>paths[0]\<close> first: its callers pass an array with
  a first fragment. The assertion \<open>assert(absolute == false)\<close> stands where \<open>pos = 0\<close>,
  that is where the root is empty, and an empty root is not absolute.
\<close>

definition join_and_normalize_multiple ::
  "cwk_path_style \<Rightarrow> string list \<Rightarrow> buffer \<Rightarrow> nat \<Rightarrow> buffer \<times> nat" where
  "join_and_normalize_multiple st paths buffer buffer_size =
     (let pos = get_root st (paths ! 0);
          absolute = is_root_absolute st (paths ! 0) pos;
          (buffer, n) = output_sized buffer buffer_size 0 (paths ! 0) 0 pos
      in case get_first_segment_joined st paths uninitialized_sj of
           (False, sj) \<Rightarrow> (terminate_output buffer buffer_size pos, pos)
         | (True, sj) \<Rightarrow>
             let (buffer, pos, has_segment_output) =
                   join_loop st sj absolute buffer buffer_size pos False;
                 (buffer, pos) =
                   (if \<not> has_segment_output \<and> pos = 0
                    then (let (b, n) = output_current buffer buffer_size pos in (b, pos + n))
                    else (buffer, pos))
             in (terminate_output buffer buffer_size pos, pos))"

definition normalize :: "cwk_path_style \<Rightarrow> string \<Rightarrow> buffer \<Rightarrow> nat \<Rightarrow> buffer \<times> nat" where
  "normalize st path buffer buffer_size =
     join_and_normalize_multiple st [path] buffer buffer_size"

definition join ::
  "cwk_path_style \<Rightarrow> string \<Rightarrow> string \<Rightarrow> buffer \<Rightarrow> nat \<Rightarrow> buffer \<times> nat" where
  "join st path_a path_b buffer buffer_size =
     join_and_normalize_multiple st [path_a, path_b] buffer buffer_size"

text \<open>
  \<open>join_multiple\<close> is given the array by its caller; with no fragment at all the code
  reads through the null pointer \<open>paths[0]\<close>, which is the result \<open>None\<close>.
\<close>

definition join_multiple ::
  "cwk_path_style \<Rightarrow> string list \<Rightarrow> buffer \<Rightarrow> nat \<Rightarrow> (buffer \<times> nat) option" where
  "join_multiple st paths buffer buffer_size =
     (if paths = [] then None
      else Some (join_and_normalize_multiple st paths buffer buffer_size))"

definition get_absolute ::
  "cwk_path_style \<Rightarrow> string \<Rightarrow> string \<Rightarrow> buffer \<Rightarrow> nat \<Rightarrow> buffer \<times> nat" where
  "get_absolute st base path buffer buffer_size =
     (let paths0 =
            (if is_absolute st base then []
             else if st = CWK_STYLE_WINDOWS then [[BACKSLASH]]
             else [''/'']);
          paths =
            (if is_absolute st path then paths0 @ [path]
             else paths0 @ [base, path])
      in join_and_normalize_multiple st paths buffer buffer_size)"

subsection \<open>Relative paths\<close>

function skip_segments_until_diverge ::
  "cwk_path_style \<Rightarrow> cwk_segment_joined \<Rightarrow> cwk_segment_joined \<Rightarrow> bool
     \<Rightarrow> cwk_segment_joined \<times> cwk_segment_joined \<times> bool \<times> bool" where
  "skip_segments_until_diverge st bsj osj absolute =
     (case segment_joined_skip_invisible st bsj absolute of
        (base_available, bsj1) \<Rightarrow>
     (case segment_joined_skip_invisible st osj absolute of
        (other_available, osj1) \<Rightarrow>
          if \<not> base_available \<or> \<not> other_available
          then (bsj1, osj1, base_available, other_available)
          else if \<not> is_string_equal st
                    (seg_path (sj_segment bsj1)) (seg_begin (sj_segment bsj1))
                    (seg_path (sj_segment osj1)) (seg_begin (sj_segment osj1))
                    (seg_size (sj_segment bsj1))
          then (bsj1, osj1, base_available, other_available)
          else
            (case get_next_segment_joined st bsj1 of
               (base_available, bsj2) \<Rightarrow>
            (case get_next_segment_joined st osj1 of
               (other_available, osj2) \<Rightarrow>
                 if base_available \<and> other_available
                 then skip_segments_until_diverge st bsj2 osj2 absolute
                 else (bsj2, osj2, base_available, other_available)))))"
  by pat_completeness auto
termination
  by (relation "inv_image fwd_rel (\<lambda>(st, bsj, osj, a). bsj)")
     (simp add: wf_fwd_rel wf_inv_image, (clarsimp, rule loop_step_fwd_rel, assumption+))

declare skip_segments_until_diverge.simps [simp del]

text \<open>The loop of \<open>get_relative\<close> that writes a back segment for each base segment left.\<close>

function relative_base_loop ::
  "cwk_path_style \<Rightarrow> cwk_segment_joined \<Rightarrow> bool \<Rightarrow> buffer \<Rightarrow> nat \<Rightarrow> nat \<Rightarrow> bool
     \<Rightarrow> buffer \<times> nat \<times> bool" where
  "relative_base_loop st bsj absolute buffer buffer_size pos has_output =
     (case segment_joined_skip_invisible st bsj absolute of
        (False, bsj1) \<Rightarrow> (buffer, pos, has_output)
      | (True, bsj1) \<Rightarrow>
          let (buffer, n) = output_back buffer buffer_size pos;
              pos = pos + n;
              (buffer, n) = output_separator st buffer buffer_size pos;
              pos = pos + n
          in case get_next_segment_joined st bsj1 of
               (True, bsj2) \<Rightarrow>
                 relative_base_loop st bsj2 absolute buffer buffer_size pos True
             | (False, bsj2) \<Rightarrow> (buffer, pos, True))"
  by pat_completeness auto
termination
  by (relation "inv_image fwd_rel (\<lambda>(st, bsj, a, b, n, p, h). bsj)")
     (simp add: wf_fwd_rel wf_inv_image, (clarsimp, rule loop_step_fwd_rel, assumption+))

declare relative_base_loop.simps [simp del]

text \<open>The loop of \<open>get_relative\<close> that writes the segments left of the target path.\<close>

function relative_other_loop ::
  "cwk_path_style \<Rightarrow> cwk_segment_joined \<Rightarrow> bool \<Rightarrow> buffer \<Rightarrow> nat \<Rightarrow> nat \<Rightarrow> bool
     \<Rightarrow> buffer \<times> nat \<times> bool" where
  "relative_other_loop st osj absolute buffer buffer_size pos has_output =
     (case segment_joined_skip_invisible st osj absolute of
        (False, osj1) \<Rightarrow> (buffer, pos, has_output)
      | (True, osj1) \<Rightarrow>
          let (buffer, n) = output_sized buffer buffer_size pos
                              (seg_path (sj_segment osj1)) (seg_begin (sj_segment osj1))
                              (seg_size (sj_segment osj1));
              pos = pos + n;
              (buffer, n) = output_separator st buffer buffer_size pos;
              pos = pos + n
          in case get_next_segment_joined st osj1 of
               (True, osj2) \<Rightarrow>
                 relative_other_loop st osj2 absolute buffer buffer_size pos True
             | (False, osj2) \<Rightarrow> (buffer, pos, True))"
  by pat_completeness auto
termination
  by (relation "inv_image fwd_rel (\<lambda>(st, osj, a, b, n, p, h). osj)")
     (simp add: wf_fwd_rel wf_inv_image, (clarsimp, rule loop_step_fwd_rel, assumption+))

declare relative_other_loop.simps [simp del]

definition get_relative ::
  "cwk_path_style \<Rightarrow> string \<Rightarrow> string \<Rightarrow> buffer \<Rightarrow> nat \<Rightarrow> buffer \<times> nat" where
  "get_relative st base_directory path buffer buffer_size =
     (let pos = 0;
          base_root_length = get_root st base_directory;
          path_root_length = get_root st path
      in if base_root_length \<noteq> path_root_length \<or>
            \<not> is_string_equal st base_directory 0 path 0 base_root_length
         then (terminate_output buffer buffer_size pos, pos)
         else
           let absolute = is_root_absolute st base_directory base_root_length;
               (b0, bsj) = get_first_segment_joined st [base_directory] uninitialized_sj;
               (o0, osj) = get_first_segment_joined st [path] uninitialized_sj;
               (bsj, osj, base_available, other_available) =
                 skip_segments_until_diverge st bsj osj absolute;
               has_output = False;
               (buffer, pos, has_output) =
                 (if base_available
                  then relative_base_loop st bsj absolute buffer buffer_size pos has_output
                  else (buffer, pos, has_output));
               (buffer, pos, has_output) =
                 (if other_available
                  then relative_other_loop st osj absolute buffer buffer_size pos has_output
                  else (buffer, pos, has_output));
               (buffer, pos) =
                 (if has_output then (buffer, pos - 1)
                  else (let (b, n) = output_current buffer buffer_size pos in (b, pos + n)))
           in (terminate_output buffer buffer_size pos, pos))"

subsection \<open>Changing the root, a segment, the basename and the extension\<close>

definition change_root ::
  "cwk_path_style \<Rightarrow> string \<Rightarrow> string \<Rightarrow> buffer \<Rightarrow> nat \<Rightarrow> buffer \<times> nat" where
  "change_root st path new_root buffer buffer_size =
     (let root_length = get_root st path;
          new_root_length = strlen new_root 0;
          path_length = strlen path 0;
          tail = root_length;
          tail_length = path_length - root_length;
          (buffer, n) = output_sized buffer buffer_size new_root_length path tail tail_length;
          (buffer, n) = output_sized buffer buffer_size 0 new_root 0 new_root_length;
          new_path_size = tail_length + new_root_length
      in (terminate_output buffer buffer_size new_path_size, new_path_size))"

text \<open>
  The loop \<open>while (value_size > 0 && is_separator(&value[value_size - 1])) --value_size\<close>
  that trims separators at the end of a value which starts at offset \<open>v\<close>.
\<close>

function trim_trailing :: "cwk_path_style \<Rightarrow> string \<Rightarrow> nat \<Rightarrow> nat \<Rightarrow> nat" where
  "trim_trailing st value v value_size =
     (if value_size > 0 \<and> is_separator st (char_at value (v + (value_size - 1)))
      then trim_trailing st value v (value_size - 1) else value_size)"
  by pat_completeness auto
termination
  by (relation "measure (\<lambda>(st, value, v, value_size). value_size)") auto

declare trim_trailing.simps [simp del]

text \<open>
  \<open>change_segment\<close>. The value is trimmed by \<open>skip_separators\<close> at its beginning (the same
  loop as in the root parser), measured by \<open>strlen\<close> and trimmed at its end.
\<close>

definition change_segment ::
  "cwk_path_style \<Rightarrow> cwk_segment \<Rightarrow> string \<Rightarrow> buffer \<Rightarrow> nat \<Rightarrow> buffer \<times> nat" where
  "change_segment st segment value buffer buffer_size =
     (let (buffer, pos) =
            output_sized buffer buffer_size 0 (seg_path segment) 0 (seg_begin segment);
          v = skip_separators st value 0;
          value_size = strlen value v;
          value_size = trim_trailing st value v value_size;
          tail_size = strlen (seg_path segment) (seg_end segment);
          (buffer, n) = output_sized buffer buffer_size (pos + value_size)
                          (seg_path segment) (seg_end segment) tail_size;
          (buffer, n) = output_sized buffer buffer_size pos value v value_size;
          pos = pos + n;
          pos = pos + tail_size
      in (terminate_output buffer buffer_size pos, pos))"

definition change_basename ::
  "cwk_path_style \<Rightarrow> string \<Rightarrow> string \<Rightarrow> buffer \<Rightarrow> nat \<Rightarrow> buffer \<times> nat" where
  "change_basename st path new_basename buffer buffer_size =
     (case get_last_segment st path of
        (False, segment) \<Rightarrow>
          let root_size = get_root st path;
              (buffer, pos) = output_sized buffer buffer_size 0 path 0 root_size;
              v = skip_separators st new_basename 0;
              new_basename_size = strlen new_basename v;
              new_basename_size = trim_trailing st new_basename v new_basename_size;
              (buffer, n) = output_sized buffer buffer_size pos new_basename v
                              new_basename_size;
              pos = pos + n
          in (terminate_output buffer buffer_size pos, pos)
      | (True, segment) \<Rightarrow> change_segment st segment new_basename buffer buffer_size)"

text \<open>
  The loop of \<open>change_extension\<close> that looks for the last dot of the segment:
  \<open>for (c = segment.begin; c < segment.end; ++c) if (*c == '.') old_extension = c\<close>.
\<close>

function find_old_extension :: "string \<Rightarrow> nat \<Rightarrow> nat \<Rightarrow> nat \<Rightarrow> nat" where
  "find_old_extension p c seg_end_ptr old_extension =
     (if c < seg_end_ptr
      then find_old_extension p (c + 1) seg_end_ptr
             (if char_at p c = CHR ''.'' then c else old_extension)
      else old_extension)"
  by pat_completeness auto
termination
  by (relation "measure (\<lambda>(p, c, e, old). e - c)") auto

declare find_old_extension.simps [simp del]

definition change_extension ::
  "cwk_path_style \<Rightarrow> string \<Rightarrow> string \<Rightarrow> buffer \<Rightarrow> nat \<Rightarrow> buffer \<times> nat" where
  "change_extension st path new_extension buffer buffer_size =
     (case get_last_segment st path of
        (False, segment) \<Rightarrow>
          let root_size = get_root st path;
              (buffer, pos) = output_sized buffer buffer_size 0 path 0 root_size;
              (buffer, pos) =
                (if char_at new_extension 0 \<noteq> CHR ''.''
                 then (let (b, n) = output_dot buffer buffer_size pos in (b, pos + n))
                 else (buffer, pos));
              (buffer, n) = output_str buffer buffer_size pos new_extension 0;
              pos = pos + n
          in (terminate_output buffer buffer_size pos, pos)
      | (True, segment) \<Rightarrow>
          let old_extension =
                find_old_extension (seg_path segment) (seg_begin segment) (seg_end segment)
                  (seg_end segment);
              (buffer, pos) =
                output_sized buffer buffer_size 0 (seg_path segment) 0 old_extension;
              e = (if char_at new_extension 0 = CHR ''.'' then 1 else 0);
              new_extension_size = strlen new_extension e + 1;
              (buffer, trail_size) =
                output_str buffer buffer_size (pos + new_extension_size)
                  (seg_path segment) (seg_end segment);
              (buffer, n) = output_dot buffer buffer_size pos;
              pos = pos + n;
              (buffer, n) = output_str buffer buffer_size pos new_extension e;
              pos = pos + n;
              pos = pos + trail_size
          in (terminate_output buffer buffer_size pos, pos))"

subsection \<open>Intersection\<close>

text \<open>
  The \<open>do ... while\<close> loop of \<open>get_intersection\<close>, with \<open>end\<close> as an offset into the base
  path; it returns the value the function returns.
\<close>

function intersection_loop ::
  "cwk_path_style \<Rightarrow> cwk_segment_joined \<Rightarrow> cwk_segment_joined \<Rightarrow> bool \<Rightarrow> nat \<Rightarrow> nat" where
  "intersection_loop st base other absolute end_ptr =
     (case segment_joined_skip_invisible st base absolute of
        (False, base1) \<Rightarrow> end_ptr
      | (True, base1) \<Rightarrow>
          (case segment_joined_skip_invisible st other absolute of
             (False, other1) \<Rightarrow> end_ptr
           | (True, other1) \<Rightarrow>
               if \<not> is_string_equal st
                      (seg_path (sj_segment base1)) (seg_begin (sj_segment base1))
                      (seg_path (sj_segment other1)) (seg_begin (sj_segment other1))
                      (seg_size (sj_segment base1))
               then end_ptr
               else
                 let end_ptr = seg_end (sj_segment base1)
                 in (case get_next_segment_joined st base1 of
                       (False, base2) \<Rightarrow> end_ptr
                     | (True, base2) \<Rightarrow>
                         (case get_next_segment_joined st other1 of
                            (False, other2) \<Rightarrow> end_ptr
                          | (True, other2) \<Rightarrow>
                              intersection_loop st base2 other2 absolute end_ptr))))"
  by pat_completeness auto
termination
  by (relation "inv_image fwd_rel (\<lambda>(st, base, other, a, e). base)")
     (simp add: wf_fwd_rel wf_inv_image, (clarsimp, rule loop_step_fwd_rel, assumption+))

declare intersection_loop.simps [simp del]

definition get_intersection :: "cwk_path_style \<Rightarrow> string \<Rightarrow> string \<Rightarrow> nat" where
  "get_intersection st path_base path_other =
     (let base_root_length = get_root st path_base;
          other_root_length = get_root st path_other
      in if \<not> is_string_equal st path_base 0 path_other 0 base_root_length then 0
         else
           (case get_first_segment_joined st [path_base] uninitialized_sj of
              (False, base) \<Rightarrow> base_root_length
            | (True, base) \<Rightarrow>
                (case get_first_segment_joined st [path_other] uninitialized_sj of
                   (False, other) \<Rightarrow> base_root_length
                 | (True, other) \<Rightarrow>
                     let absolute = is_root_absolute st path_base base_root_length;
                         end_ptr = base_root_length
                     in intersection_loop st base other absolute end_ptr)))"

text \<open>
  Claim C5 says that \<open>get_intersection\<close> returns 0 unless the two roots have the same
  length and the same text. The code compares only the first \<open>base_root_length\<close>
  characters of the two paths and never the two lengths (\<open>get_relative\<close> compares them):
  under the Unix style the base path \<open>a\<close> has an empty root, the other path \<open>/a\<close> has the
  root \<open>/\<close>, and the result is 1, the end of the segment \<open>a\<close> of the base path.
\<close>

theorem get_intersection_ignores_root_length:
  "get_root CWK_STYLE_UNIX ''a'' = 0 \<and> get_root CWK_STYLE_UNIX ''/a'' = 1 \<and>
   get_intersection CWK_STYLE_UNIX ''a'' ''/a'' = 1"
  by code_simp

section \<open>The buffer contract\<close>

text \<open>
  \<open>outside n b b'\<close>: the memory \<open>b'\<close> agrees with \<open>b\<close> at every offset from \<open>n\<close> on. With
  \<open>n = 0\<close> the two are equal.
\<close>

definition outside :: "nat \<Rightarrow> buffer \<Rightarrow> buffer \<Rightarrow> bool" where
  "outside n b b' = (\<forall>i\<ge>n. b' i = b i)"

lemma outside_refl [simp]: "outside n b b"
  by (simp add: outside_def)

lemma outside_trans: "outside n a b \<Longrightarrow> outside n b c \<Longrightarrow> outside n a c"
  by (simp add: outside_def)

lemma outside_0: "outside 0 b b' \<Longrightarrow> b' = b"
  by (auto simp: outside_def)

lemma output_sized_snd [simp]: "snd (output_sized b n pos s off len) = len"
  by (simp add: output_sized_def Let_def)

lemma output_sized_outside: "outside n b (fst (output_sized b n pos s off len))"
  by (auto simp: output_sized_def outside_def memmove_def Let_def)

lemma output_separator_snd [simp]: "snd (output_separator st b n pos) = 1"
  by (simp add: output_separator_def)

lemma output_separator_outside: "outside n b (fst (output_separator st b n pos))"
  by (simp add: output_separator_def output_sized_outside)

lemma output_current_snd [simp]: "snd (output_current b n pos) = 1"
  by (simp add: output_current_def)

lemma output_current_outside: "outside n b (fst (output_current b n pos))"
  by (simp add: output_current_def output_sized_outside)

lemma output_back_snd [simp]: "snd (output_back b n pos) = 2"
  by (simp add: output_back_def)

lemma output_back_outside: "outside n b (fst (output_back b n pos))"
  by (simp add: output_back_def output_sized_outside)

lemma output_dot_snd [simp]: "snd (output_dot b n pos) = 1"
  by (simp add: output_dot_def)

lemma output_dot_outside: "outside n b (fst (output_dot b n pos))"
  by (simp add: output_dot_def output_sized_outside)

lemma output_str_snd [simp]: "snd (output_str b n pos s off) = strlen s off"
  by (simp add: output_str_def)

lemma output_str_outside: "outside n b (fst (output_str b n pos s off))"
  by (simp add: output_str_def output_sized_outside)

lemma terminate_output_outside: "outside n b (terminate_output b n pos)"
  by (auto simp: terminate_output_def outside_def)

lemma terminate_output_NUL: "0 < n \<Longrightarrow> terminate_output b n pos (min pos (n - 1)) = NUL"
  by (auto simp: terminate_output_def min_def)

lemmas outside_intros = output_sized_outside output_separator_outside output_current_outside
  output_back_outside output_dot_outside output_str_outside terminate_output_outside

subsection \<open>Join and normalize\<close>

lemma join_body_snd:
  "snd (join_body st sj a b n pos h) = snd (join_body st sj a b' n' pos h)"
  by (simp add: join_body_def split_def Let_def)

lemma join_body_outside: "outside n b (fst (join_body st sj a b n pos h))"
  by (auto simp: join_body_def split_def Let_def intro: outside_trans outside_intros)

lemma join_loop_snd:
  "snd (join_loop st sj a b n pos h) = snd (join_loop st sj a b' n' pos h)"
proof (induction sj arbitrary: b b' pos h rule: wf_induct_rule[OF wf_fwd_rel])
  case (1 sj)
  obtain b1 p1 h1 where j1: "join_body st sj a b n pos h = (b1, p1, h1)"
    by (cases "join_body st sj a b n pos h") auto
  obtain b2 p2 h2 where j2: "join_body st sj a b' n' pos h = (b2, p2, h2)"
    by (cases "join_body st sj a b' n' pos h") auto
  from join_body_snd[of st sj a b n pos h b' n'] j1 j2 have eq: "p2 = p1" "h2 = h1" by simp_all
  obtain c sj' where nx: "get_next_segment_joined st sj = (c, sj')" by fastforce
  show ?case
  proof (cases c)
    case True
    with nx have "(sj', sj) \<in> fwd_rel" by (simp add: next_joined_fwd_rel)
    from 1[OF this, of b1 p1 h1 b2] show ?thesis
      by (subst join_loop.simps, subst (2) join_loop.simps) (simp add: j1 j2 eq nx True)
  next
    case False
    then show ?thesis
      by (subst join_loop.simps, subst (2) join_loop.simps) (simp add: j1 j2 eq nx)
  qed
qed

lemma join_loop_outside: "outside n b (fst (join_loop st sj a b n pos h))"
proof (induction sj arbitrary: b pos h rule: wf_induct_rule[OF wf_fwd_rel])
  case (1 sj)
  obtain b1 p1 h1 where j1: "join_body st sj a b n pos h = (b1, p1, h1)"
    by (cases "join_body st sj a b n pos h") auto
  from join_body_outside[of n b st sj a pos h] j1 have o1: "outside n b b1" by simp
  obtain c sj' where nx: "get_next_segment_joined st sj = (c, sj')" by fastforce
  show ?case
  proof (cases c)
    case True
    with nx have "(sj', sj) \<in> fwd_rel" by (simp add: next_joined_fwd_rel)
    from 1[OF this, of b1 p1 h1] o1 show ?thesis
      by (subst join_loop.simps) (auto simp: j1 nx True intro: outside_trans)
  next
    case False
    with o1 show ?thesis by (subst join_loop.simps) (simp add: j1 nx)
  qed
qed

lemma jnm_snd:
  "snd (join_and_normalize_multiple st paths b n) =
   snd (join_and_normalize_multiple st paths b' n')"
proof -
  let ?pos = "get_root st (paths ! 0)"
  let ?a = "is_root_absolute st (paths ! 0) ?pos"
  obtain c sj where f: "get_first_segment_joined st paths uninitialized_sj = (c, sj)"
    by fastforce
  show ?thesis
  proof (cases c)
    case False
    with f show ?thesis by (simp add: join_and_normalize_multiple_def split_def Let_def)
  next
    case True
    let ?b1 = "fst (output_sized b n 0 (paths ! 0) 0 ?pos)"
    let ?b2 = "fst (output_sized b' n' 0 (paths ! 0) 0 ?pos)"
    have "snd (join_loop st sj ?a ?b1 n ?pos False) = snd (join_loop st sj ?a ?b2 n' ?pos False)"
      by (rule join_loop_snd)
    with f True show ?thesis
      by (simp add: join_and_normalize_multiple_def split_def Let_def)
  qed
qed

lemma jnm_outside: "outside n b (fst (join_and_normalize_multiple st paths b n))"
proof -
  let ?pos = "get_root st (paths ! 0)"
  let ?a = "is_root_absolute st (paths ! 0) ?pos"
  let ?b1 = "fst (output_sized b n 0 (paths ! 0) 0 ?pos)"
  have o1: "outside n b ?b1" by (rule output_sized_outside)
  obtain c sj where f: "get_first_segment_joined st paths uninitialized_sj = (c, sj)"
    by fastforce
  show ?thesis
  proof (cases c)
    case False
    with f o1 show ?thesis
      by (auto simp: join_and_normalize_multiple_def split_def Let_def
          intro: outside_trans outside_intros)
  next
    case True
    let ?r = "join_loop st sj ?a ?b1 n ?pos False"
    have o2: "outside n b (fst ?r)"
      using o1 join_loop_outside[of n ?b1 st sj ?a ?pos False] by (rule outside_trans)
    have o3: "outside n b (fst (output_current (fst ?r) n (fst (snd ?r))))"
      using o2 output_current_outside by (rule outside_trans)
    from f True o2 o3 show ?thesis
      by (auto simp: join_and_normalize_multiple_def split_def Let_def
          intro: outside_trans terminate_output_outside)
  qed
qed

lemma terminated_NUL:
  assumes "r = (terminate_output B n P, P)" "0 < n"
  shows "fst r (min (snd r) (n - 1)) = NUL"
  using assms terminate_output_NUL[of n B P] by simp

lemma jnm_form:
  "\<exists>B P. join_and_normalize_multiple st paths b n = (terminate_output B n P, P)"
  by (auto simp: join_and_normalize_multiple_def split_def Let_def split: bool.splits)

lemma jnm_NUL:
  assumes "0 < n"
  shows "fst (join_and_normalize_multiple st paths b n)
     (min (snd (join_and_normalize_multiple st paths b n)) (n - 1)) = NUL"
proof -
  from jnm_form obtain B P where
    "join_and_normalize_multiple st paths b n = (terminate_output B n P, P)" by blast
  from terminated_NUL[OF this assms] show ?thesis .
qed

subsection \<open>Relative paths\<close>

lemma relative_base_loop_snd:
  "snd (relative_base_loop st sj a b n pos h) = snd (relative_base_loop st sj a b' n' pos h)"
proof (induction sj arbitrary: b b' pos h rule: wf_induct_rule[OF wf_fwd_rel])
  case (1 sj)
  obtain c sj1 where sk: "segment_joined_skip_invisible st sj a = (c, sj1)" by fastforce
  show ?case
  proof (cases c)
    case False
    with sk show ?thesis
      by (subst relative_base_loop.simps, subst (2) relative_base_loop.simps) simp
  next
    case True
    obtain d sj2 where nx: "get_next_segment_joined st sj1 = (d, sj2)" by fastforce
    show ?thesis
    proof (cases d)
      case False
      with sk True nx show ?thesis
        by (subst relative_base_loop.simps, subst (2) relative_base_loop.simps)
           (simp add: split_def Let_def)
    next
      case d: True
      from sk True nx d have "(sj2, sj) \<in> fwd_rel"
        by (intro loop_step_fwd_rel[of sj1 st sj a sj2]) simp_all
      from 1[OF this] sk True nx d show ?thesis
        by (subst relative_base_loop.simps, subst (2) relative_base_loop.simps)
           (simp add: split_def Let_def)
    qed
  qed
qed

lemma relative_base_loop_outside:
  "outside n b (fst (relative_base_loop st sj a b n pos h))"
proof (induction sj arbitrary: b pos h rule: wf_induct_rule[OF wf_fwd_rel])
  case (1 sj)
  obtain c sj1 where sk: "segment_joined_skip_invisible st sj a = (c, sj1)" by fastforce
  show ?case
  proof (cases c)
    case False
    with sk show ?thesis by (subst relative_base_loop.simps) simp
  next
    case True
    let ?b1 = "fst (output_back b n pos)"
    let ?b2 = "fst (output_separator st ?b1 n (pos + 2))"
    have o2: "outside n b ?b2"
      using output_back_outside output_separator_outside by (rule outside_trans)
    obtain d sj2 where nx: "get_next_segment_joined st sj1 = (d, sj2)" by fastforce
    show ?thesis
    proof (cases d)
      case False
      with sk True nx o2 show ?thesis
        by (subst relative_base_loop.simps) (simp add: split_def Let_def)
    next
      case d: True
      from sk True nx d have "(sj2, sj) \<in> fwd_rel"
        by (intro loop_step_fwd_rel[of sj1 st sj a sj2]) simp_all
      from 1[OF this, of ?b2 "pos + 2 + 1" True] o2
      have "outside n b (fst (relative_base_loop st sj2 a ?b2 n (pos + 2 + 1) True))"
        by (rule outside_trans[rotated])
      with sk True nx d show ?thesis
        by (subst relative_base_loop.simps) (simp add: split_def Let_def)
    qed
  qed
qed

lemma relative_other_loop_snd:
  "snd (relative_other_loop st sj a b n pos h) = snd (relative_other_loop st sj a b' n' pos h)"
proof (induction sj arbitrary: b b' pos h rule: wf_induct_rule[OF wf_fwd_rel])
  case (1 sj)
  obtain c sj1 where sk: "segment_joined_skip_invisible st sj a = (c, sj1)" by fastforce
  show ?case
  proof (cases c)
    case False
    with sk show ?thesis
      by (subst relative_other_loop.simps, subst (2) relative_other_loop.simps) simp
  next
    case True
    obtain d sj2 where nx: "get_next_segment_joined st sj1 = (d, sj2)" by fastforce
    show ?thesis
    proof (cases d)
      case False
      with sk True nx show ?thesis
        by (subst relative_other_loop.simps, subst (2) relative_other_loop.simps)
           (simp add: split_def Let_def)
    next
      case d: True
      from sk True nx d have "(sj2, sj) \<in> fwd_rel"
        by (intro loop_step_fwd_rel[of sj1 st sj a sj2]) simp_all
      from 1[OF this] sk True nx d show ?thesis
        by (subst relative_other_loop.simps, subst (2) relative_other_loop.simps)
           (simp add: split_def Let_def)
    qed
  qed
qed

lemma relative_other_loop_outside:
  "outside n b (fst (relative_other_loop st sj a b n pos h))"
proof (induction sj arbitrary: b pos h rule: wf_induct_rule[OF wf_fwd_rel])
  case (1 sj)
  obtain c sj1 where sk: "segment_joined_skip_invisible st sj a = (c, sj1)" by fastforce
  show ?case
  proof (cases c)
    case False
    with sk show ?thesis by (subst relative_other_loop.simps) simp
  next
    case True
    let ?len = "seg_size (sj_segment sj1)"
    let ?b1 = "fst (output_sized b n pos (seg_path (sj_segment sj1))
                  (seg_begin (sj_segment sj1)) ?len)"
    let ?b2 = "fst (output_separator st ?b1 n (pos + ?len))"
    have o2: "outside n b ?b2"
      using output_sized_outside output_separator_outside by (rule outside_trans)
    obtain d sj2 where nx: "get_next_segment_joined st sj1 = (d, sj2)" by fastforce
    show ?thesis
    proof (cases d)
      case False
      with sk True nx o2 show ?thesis
        by (subst relative_other_loop.simps) (simp add: split_def Let_def)
    next
      case d: True
      from sk True nx d have "(sj2, sj) \<in> fwd_rel"
        by (intro loop_step_fwd_rel[of sj1 st sj a sj2]) simp_all
      from 1[OF this, of ?b2 "pos + ?len + 1" True] o2
      have "outside n b (fst (relative_other_loop st sj2 a ?b2 n (pos + ?len + 1) True))"
        by (rule outside_trans[rotated])
      with sk True nx d show ?thesis
        by (subst relative_other_loop.simps) (simp add: split_def Let_def)
    qed
  qed
qed

text \<open>The position and flag a loop of \<open>get_relative\<close> returns, which no buffer influences.\<close>

definition base_loop_result ::
  "cwk_path_style \<Rightarrow> cwk_segment_joined \<Rightarrow> bool \<Rightarrow> nat \<Rightarrow> bool \<Rightarrow> nat \<times> bool" where
  "base_loop_result st sj a pos h = snd (relative_base_loop st sj a (\<lambda>_. NUL) 0 pos h)"

definition other_loop_result ::
  "cwk_path_style \<Rightarrow> cwk_segment_joined \<Rightarrow> bool \<Rightarrow> nat \<Rightarrow> bool \<Rightarrow> nat \<times> bool" where
  "other_loop_result st sj a pos h = snd (relative_other_loop st sj a (\<lambda>_. NUL) 0 pos h)"

lemma base_loop_result: "snd (relative_base_loop st sj a b n pos h) = base_loop_result st sj a pos h"
  unfolding base_loop_result_def by (rule relative_base_loop_snd)

lemma other_loop_result: "snd (relative_other_loop st sj a b n pos h) = other_loop_result st sj a pos h"
  unfolding other_loop_result_def by (rule relative_other_loop_snd)

lemma get_relative_snd:
  "snd (get_relative st base path b n) = snd (get_relative st base path b' n')"
  by (simp add: get_relative_def split_def Let_def base_loop_result other_loop_result)


lemma get_relative_outside: "outside n b (fst (get_relative st base path b n))"
proof (cases "get_root st base \<noteq> get_root st path \<or>
              \<not> is_string_equal st base 0 path 0 (get_root st base)")
  case True
  then show ?thesis
    by (auto simp: get_relative_def Let_def terminate_output_outside)
next
  case False
  define a where "a = is_root_absolute st base (get_root st base)"
  define bsj0 where "bsj0 = snd (get_first_segment_joined st [base] uninitialized_sj)"
  define osj0 where "osj0 = snd (get_first_segment_joined st [path] uninitialized_sj)"
  define d where "d = skip_segments_until_diverge st bsj0 osj0 a"
  define r1 where "r1 = (if fst (snd (snd d))
      then relative_base_loop st (fst d) a b n 0 False else (b, 0, False))"
  define r2 where "r2 = (if snd (snd (snd d))
      then relative_other_loop st (fst (snd d)) a (fst r1) n (fst (snd r1)) (snd (snd r1))
      else r1)"
  define r3 where "r3 = (if snd (snd r2) then (fst r2, fst (snd r2) - 1)
      else (fst (output_current (fst r2) n (fst (snd r2))), fst (snd r2) + 1))"
  have o1: "outside n b (fst r1)"
    by (simp add: r1_def relative_base_loop_outside)
  have "outside n (fst r1) (fst r2)"
    by (simp add: r2_def relative_other_loop_outside)
  with o1 have o2: "outside n b (fst r2)" by (rule outside_trans)
  have "outside n (fst r2) (fst r3)"
    by (simp add: r3_def output_current_outside)
  with o2 have o3: "outside n b (fst r3)" by (rule outside_trans)
  have "get_relative st base path b n = (terminate_output (fst r3) n (snd r3), snd r3)"
    using False
    by (simp add: get_relative_def split_def Let_def r3_def r2_def r1_def d_def a_def
        bsj0_def osj0_def)
  with o3 terminate_output_outside[of n "fst r3" "snd r3"] show ?thesis
    by (auto intro: outside_trans)
qed

subsection \<open>Changing the root, a segment, the basename and the extension\<close>

lemma outside_steps:
  "outside n b B \<Longrightarrow> outside n b (fst (output_sized B n pos s off len))"
  "outside n b B \<Longrightarrow> outside n b (fst (output_str B n pos s off))"
  "outside n b B \<Longrightarrow> outside n b (fst (output_dot B n pos))"
  "outside n b B \<Longrightarrow> outside n b (terminate_output B n P)"
  by (blast intro: outside_trans outside_intros)+

lemma change_root_snd:
  "snd (change_root st path new_root b n) = snd (change_root st path new_root b' n')"
  by (simp add: change_root_def split_def Let_def)


lemma change_root_outside: "outside n b (fst (change_root st path new_root b n))"
  by (simp add: change_root_def split_def Let_def outside_steps)

lemma change_segment_snd:
  "snd (change_segment st seg v b n) = snd (change_segment st seg v b' n')"
  by (simp add: change_segment_def split_def Let_def)


lemma change_segment_outside: "outside n b (fst (change_segment st seg v b n))"
  by (simp add: change_segment_def split_def Let_def outside_steps)

lemma change_basename_snd:
  "snd (change_basename st path v b n) = snd (change_basename st path v b' n')"
  by (simp add: change_basename_def split_def Let_def change_segment_snd[of st _ v b n b' n']
      split: prod.splits bool.splits)


lemma change_basename_outside: "outside n b (fst (change_basename st path v b n))"
  by (simp add: change_basename_def split_def Let_def change_segment_outside outside_steps
      split: prod.splits bool.splits)

lemma change_extension_snd:
  "snd (change_extension st path v b n) = snd (change_extension st path v b' n')"
  by (simp add: change_extension_def split_def Let_def split: prod.splits bool.splits)


lemma change_extension_outside: "outside n b (fst (change_extension st path v b n))"
proof -
  obtain c seg where l: "get_last_segment st path = (c, seg)" by fastforce
  show ?thesis
  proof (cases c)
    case False
    let ?b1 = "fst (output_sized b n 0 path 0 (get_root st path))"
    let ?p1 = "get_root st path"
    let ?b2 = "fst (output_dot ?b1 n ?p1)"
    have o1: "outside n b ?b1" by (rule output_sized_outside)
    have o2: "outside n b ?b2" using o1 output_dot_outside by (rule outside_trans)
    have o3: "\<And>B P. outside n b B \<Longrightarrow>
        outside n b (terminate_output (fst (output_str B n P v 0)) n (P + strlen v 0))"
      by (blast intro: outside_trans output_str_outside terminate_output_outside)
    from l False o1 o2 o3 show ?thesis
      by (simp add: change_extension_def split_def Let_def)
  next
    case True
    define old where "old = find_old_extension (seg_path seg) (seg_begin seg) (seg_end seg)
        (seg_end seg)"
    define e :: nat where "e = (if char_at v 0 = CHR ''.'' then 1 else 0)"
    let ?b1 = "fst (output_sized b n 0 (seg_path seg) 0 old)"
    let ?b2 = "fst (output_str ?b1 n (old + (strlen v e + 1)) (seg_path seg) (seg_end seg))"
    let ?b3 = "fst (output_dot ?b2 n old)"
    let ?b4 = "fst (output_str ?b3 n (old + 1) v e)"
    have "outside n b ?b1" by (rule output_sized_outside)
    then have "outside n b ?b2" using output_str_outside by (rule outside_trans)
    then have "outside n b ?b3" using output_dot_outside by (rule outside_trans)
    then have "outside n b ?b4" using output_str_outside by (rule outside_trans)
    then have "\<And>P. outside n b (terminate_output ?b4 n P)"
      using terminate_output_outside by (rule outside_trans)
    with l True show ?thesis
      by (simp add: change_extension_def split_def Let_def old_def e_def)
  qed
qed

subsection \<open>The two claims about the buffer\<close>

lemma unchanged_at_capacity_0:
  assumes "outside 0 b (fst r)"
  shows "fst r = b"
  using assms by (rule outside_0)

text \<open>
  Calls whose buffer does not overlap the input strings. For each buffer-producing
  operation (join, join_multiple, normalize, get_absolute, get_relative, change_root,
  change_basename, change_extension, change_segment): the length it returns is the same
  for every buffer and every capacity, in particular for capacity 0 and for an unbounded
  capacity, and with capacity 0 the memory it leaves is the memory it was given.
  (\<open>join_multiple\<close> has no result when it is given no fragment at all.) The call of
  \<open>normalize\<close> with the path as its own buffer is the subject of the section on calls in
  place.
\<close>

theorem capacity_does_not_change_length:
  "snd (join st pa pb b 0) = snd (join st pa pb b' n) \<and>
   fst (join st pa pb b 0) = b \<and>
   map_option snd (join_multiple st paths b 0) = map_option snd (join_multiple st paths b' n) \<and>
   map_option fst (join_multiple st paths b 0) = (if paths = [] then None else Some b) \<and>
   snd (normalize st p b 0) = snd (normalize st p b' n) \<and>
   fst (normalize st p b 0) = b \<and>
   snd (get_absolute st base p b 0) = snd (get_absolute st base p b' n) \<and>
   fst (get_absolute st base p b 0) = b \<and>
   snd (get_relative st base p b 0) = snd (get_relative st base p b' n) \<and>
   fst (get_relative st base p b 0) = b \<and>
   snd (change_root st p v b 0) = snd (change_root st p v b' n) \<and>
   fst (change_root st p v b 0) = b \<and>
   snd (change_basename st p v b 0) = snd (change_basename st p v b' n) \<and>
   fst (change_basename st p v b 0) = b \<and>
   snd (change_extension st p v b 0) = snd (change_extension st p v b' n) \<and>
   fst (change_extension st p v b 0) = b \<and>
   snd (change_segment st seg v b 0) = snd (change_segment st seg v b' n) \<and>
   fst (change_segment st seg v b 0) = b"
proof (intro conjI)
  show "snd (join st pa pb b 0) = snd (join st pa pb b' n)"
    unfolding join_def by (rule jnm_snd)
  show "fst (join st pa pb b 0) = b"
    unfolding join_def by (rule outside_0[OF jnm_outside])
  show "map_option snd (join_multiple st paths b 0) =
        map_option snd (join_multiple st paths b' n)"
    by (simp add: join_multiple_def jnm_snd[of st paths b 0 b' n])
  show "map_option fst (join_multiple st paths b 0) = (if paths = [] then None else Some b)"
    by (simp add: join_multiple_def outside_0[OF jnm_outside])
  show "snd (normalize st p b 0) = snd (normalize st p b' n)"
    unfolding normalize_def by (rule jnm_snd)
  show "fst (normalize st p b 0) = b"
    unfolding normalize_def by (rule outside_0[OF jnm_outside])
  show "snd (get_absolute st base p b 0) = snd (get_absolute st base p b' n)"
    unfolding get_absolute_def Let_def by (rule jnm_snd)
  show "fst (get_absolute st base p b 0) = b"
    unfolding get_absolute_def Let_def by (rule outside_0[OF jnm_outside])
  show "snd (get_relative st base p b 0) = snd (get_relative st base p b' n)"
    by (rule get_relative_snd)
  show "fst (get_relative st base p b 0) = b"
    by (rule outside_0[OF get_relative_outside])
  show "snd (change_root st p v b 0) = snd (change_root st p v b' n)"
    by (rule change_root_snd)
  show "fst (change_root st p v b 0) = b"
    by (rule outside_0[OF change_root_outside])
  show "snd (change_basename st p v b 0) = snd (change_basename st p v b' n)"
    by (rule change_basename_snd)
  show "fst (change_basename st p v b 0) = b"
    by (rule outside_0[OF change_basename_outside])
  show "snd (change_extension st p v b 0) = snd (change_extension st p v b' n)"
    by (rule change_extension_snd)
  show "fst (change_extension st p v b 0) = b"
    by (rule outside_0[OF change_extension_outside])
  show "snd (change_segment st seg v b 0) = snd (change_segment st seg v b' n)"
    by (rule change_segment_snd)
  show "fst (change_segment st seg v b 0) = b"
    by (rule outside_0[OF change_segment_outside])
qed

theorem capacity_does_not_change_length_witness:
  "snd (normalize CWK_STYLE_UNIX ''a/./bc'' (\<lambda>_. CHR ''#'') 0) = 4 \<and>
   snd (normalize CWK_STYLE_UNIX ''a/./bc'' (\<lambda>_. CHR ''#'') 3) = 4 \<and>
   fst (normalize CWK_STYLE_UNIX ''a/./bc'' (\<lambda>_. CHR ''#'') 0) = (\<lambda>_. CHR ''#'')"
proof -
  have v: "snd (normalize CWK_STYLE_UNIX ''a/./bc'' (\<lambda>_. CHR ''#'') 3) = 4"
    by code_simp
  from capacity_does_not_change_length[of CWK_STYLE_UNIX "''a''" "''b''" "\<lambda>_. CHR ''#''"
      "\<lambda>_. CHR ''#''" 3 "[''/x'', ''y'']" "''a/./bc''" "''/a''" "''v''"
      "\<lparr>seg_path = ''a'', seg_segments = 0, seg_begin = 0, seg_end = 1, seg_size = 1\<rparr>"] v
  show ?thesis by simp
qed





section \<open>The segments of a path as a list\<close>

text \<open>
  The segments the iterator yields from a segment on, and all segments of a path. These
  lists are the stream the proofs below reason about.
\<close>

function seg_chain :: "cwk_path_style \<Rightarrow> cwk_segment \<Rightarrow> cwk_segment list" where
  "seg_chain st s =
     s # (case get_next_segment st s of
            (True, s') \<Rightarrow> seg_chain st s'
          | (False, s') \<Rightarrow> [])"
  by pat_completeness auto
termination
  by (relation "measure (\<lambda>(st, s). length (seg_path s) - (seg_begin s + seg_size s))")
     (auto dest!: get_next_segment_progress[OF sym])

declare seg_chain.simps [simp del]

definition segments_from :: "cwk_path_style \<Rightarrow> string \<Rightarrow> nat \<Rightarrow> cwk_segment list" where
  "segments_from st path segs =
     (case get_first_segment_without_root st path segs of
        (True, s) \<Rightarrow> seg_chain st s
      | (False, s) \<Rightarrow> [])"

definition all_segments :: "cwk_path_style \<Rightarrow> string \<Rightarrow> cwk_segment list" where
  "all_segments st path = segments_from st path (get_root st path)"

lemma seg_chain_not_Nil [simp]: "seg_chain st s \<noteq> []"
  by (subst seg_chain.simps) simp

lemma seg_chain_hd [simp]: "seg_chain st s ! 0 = s"
  by (subst seg_chain.simps) simp

lemma seg_chain_next:
  "Suc i < length (seg_chain st s) \<Longrightarrow>
     get_next_segment st (seg_chain st s ! i) = (True, seg_chain st s ! Suc i)"
proof (induction i arbitrary: s)
  case 0
  obtain c s' where n: "get_next_segment st s = (c, s')" by fastforce
  from 0 n have c by (subst (asm) seg_chain.simps) (cases c; simp)
  with n show ?case
    by (subst (2) seg_chain.simps) simp
next
  case (Suc i)
  obtain c s' where n: "get_next_segment st s = (c, s')" by fastforce
  from Suc(2) n have c by (subst (asm) seg_chain.simps) (cases c; simp)
  with n have eq: "seg_chain st s = s # seg_chain st s'"
    by (subst seg_chain.simps) simp
  with Suc(2) have "Suc i < length (seg_chain st s')" by simp
  from Suc(1)[OF this] show ?case by (simp add: eq)
qed

lemma seg_chain_last:
  "get_next_segment st (last (seg_chain st s)) = (False, last (seg_chain st s))"
proof (induction st s rule: seg_chain.induct)
  case (1 st s)
  obtain c s' where n: "get_next_segment st s = (c, s')" by fastforce
  show ?case
  proof (cases c)
    case True
    with n have eq: "seg_chain st s = s # seg_chain st s'"
      by (subst seg_chain.simps) simp
    from 1[OF n[symmetric]] True show ?thesis by (simp add: eq)
  next
    case False
    with n have eq: "seg_chain st s = [s]" by (subst seg_chain.simps) simp
    from n False get_next_segment_False[of st s s'] show ?thesis by (simp add: eq)
  qed
qed

lemma seg_chain_wf:
  "segment_wf st s \<Longrightarrow> x \<in> set (seg_chain st s) \<Longrightarrow> segment_wf st x"
proof (induction st s rule: seg_chain.induct)
  case (1 st s)
  obtain c s' where n: "get_next_segment st s = (c, s')" by fastforce
  show ?case
  proof (cases c)
    case True
    with n have eq: "seg_chain st s = s # seg_chain st s'"
      by (subst seg_chain.simps) simp
    from n True 1(2) have "segment_wf st s'" by (simp add: next_segment_wf)
    with 1(1)[OF n[symmetric]] True 1(2,3) show ?thesis by (auto simp: eq)
  next
    case False
    with n have eq: "seg_chain st s = [s]" by (subst seg_chain.simps) simp
    with 1(2,3) show ?thesis by simp
  qed
qed

lemma seg_chain_same:
  "x \<in> set (seg_chain st s) \<Longrightarrow> seg_path x = seg_path s \<and> seg_segments x = seg_segments s"
proof (induction st s rule: seg_chain.induct)
  case (1 st s)
  obtain c s' where n: "get_next_segment st s = (c, s')" by fastforce
  show ?case
  proof (cases c)
    case True
    with n have eq: "seg_chain st s = s # seg_chain st s'"
      by (subst seg_chain.simps) simp
    from n True get_next_segment_progress[of st s s']
    have "seg_path s' = seg_path s" "seg_segments s' = seg_segments s" by simp_all
    with 1(1)[OF n[symmetric]] True 1(2) show ?thesis by (auto simp: eq)
  next
    case False
    with n have eq: "seg_chain st s = [s]" by (subst seg_chain.simps) simp
    with 1(2) show ?thesis by simp
  qed
qed

lemma segments_from_props:
  assumes "x \<in> set (segments_from st p g)"
  shows "segment_wf st x \<and> seg_path x = p \<and> seg_segments x = g"
proof -
  obtain c s where f: "get_first_segment_without_root st p g = (c, s)" by fastforce
  with assms have c: c and x: "x \<in> set (seg_chain st s)"
    by (auto simp: segments_from_def split: bool.splits)
  from first_segment_wf[of st p g s] f c have "segment_wf st s" "seg_path s = p"
    "seg_segments s = g" by simp_all
  with seg_chain_wf[of st s x] seg_chain_same[of x st s] x show ?thesis by simp
qed

lemma segments_from_next:
  "Suc i < length (segments_from st p g) \<Longrightarrow>
     get_next_segment st (segments_from st p g ! i) = (True, segments_from st p g ! Suc i)"
  by (auto simp: segments_from_def seg_chain_next split: prod.splits bool.splits)

lemma segments_from_last:
  "segments_from st p g \<noteq> [] \<Longrightarrow>
     get_next_segment st (last (segments_from st p g)) = (False, last (segments_from st p g))"
  by (auto simp: segments_from_def seg_chain_last split: prod.splits bool.splits)

lemma segments_from_previous:
  assumes "Suc i < length (segments_from st p g)"
  shows "get_previous_segment st (segments_from st p g ! Suc i) =
           (True, segments_from st p g ! i)"
proof -
  have "segments_from st p g ! i \<in> set (segments_from st p g)" using assms by simp
  then have "segment_wf st (segments_from st p g ! i)" by (simp add: segments_from_props)
  from next_then_previous[OF this segments_from_next[OF assms]] show ?thesis .
qed

lemma segments_from_first:
  assumes "segments_from st p g \<noteq> []"
  shows "get_first_segment_without_root st p g = (True, segments_from st p g ! 0)"
  using assms by (auto simp: segments_from_def split: prod.splits bool.splits)

lemma segments_from_Nil:
  "segments_from st p g = [] \<longleftrightarrow> \<not> fst (get_first_segment_without_root st p g)"
  by (auto simp: segments_from_def split: prod.splits bool.splits)

lemma segments_from_first_previous:
  assumes "segments_from st p g \<noteq> []"
  shows "get_previous_segment st (segments_from st p g ! 0) = (False, segments_from st p g ! 0)"
  using first_has_no_previous[OF segments_from_first[OF assms]] .

subsection \<open>The joined stream as a list\<close>

text \<open>
  The segments of fragment \<open>k\<close> of a joined path: the root is stripped from the first
  fragment only.
\<close>

definition fragment :: "cwk_path_style \<Rightarrow> string list \<Rightarrow> nat \<Rightarrow> cwk_segment list" where
  "fragment st ps k =
     segments_from st (ps ! k) (if k = 0 then get_root st (ps ! k) else 0)"

text \<open>
  \<open>get_first_segment_joined\<close> strips a root from whichever fragment it inspects; the two
  views agree when no later fragment has a root.
\<close>

definition rootless_tail :: "cwk_path_style \<Rightarrow> string list \<Rightarrow> bool" where
  "rootless_tail st ps = (\<forall>k. 0 < k \<and> k < length ps \<longrightarrow> get_root st (ps ! k) = 0)"

definition joined_at :: "string list \<Rightarrow> nat \<Rightarrow> cwk_segment \<Rightarrow> cwk_segment_joined" where
  "joined_at ps k s = \<lparr>sj_segment = s, sj_paths = ps, sj_path_index = k\<rparr>"

definition joined_ok :: "cwk_path_style \<Rightarrow> string list \<Rightarrow> cwk_segment_joined \<Rightarrow> bool" where
  "joined_ok st ps sj =
     (sj = joined_at ps (sj_path_index sj) (sj_segment sj) \<and> sj_path_index sj < length ps \<and>
      sj_segment sj \<in> set (fragment st ps (sj_path_index sj)))"

lemma last_loop_chain: "last_loop st s = last (seg_chain st s)"
proof (induction st s rule: seg_chain.induct)
  case (1 st s)
  obtain c s' where n: "get_next_segment st s = (c, s')" by fastforce
  show ?case
  proof (cases c)
    case True
    with n have eq: "seg_chain st s = s # seg_chain st s'"
      by (subst seg_chain.simps) simp
    from 1[OF n[symmetric]] True n show ?thesis
      by (subst last_loop.simps) (simp add: eq)
  next
    case False
    with n have eq: "seg_chain st s = [s]" by (subst seg_chain.simps) simp
    from n False get_next_segment_False[of st s s'] show ?thesis
      by (subst last_loop.simps) (simp add: eq)
  qed
qed

lemma get_last_segment_fragment:
  "(if k = 0 then get_last_segment st (ps ! k) else get_last_segment_without_root st (ps ! k)) =
     (if fragment st ps k = []
      then (False, snd (get_first_segment_without_root st (ps ! k)
                          (if k = 0 then get_root st (ps ! k) else 0)))
      else (True, last (fragment st ps k)))"
  by (auto simp: fragment_def get_last_segment_def get_last_segment_without_root_def
      get_first_segment_def segments_from_def last_loop_chain split: prod.splits bool.splits)

lemma chain_no_next_is_last:
  assumes "x \<in> set xs" "fst (get_next_segment st x) = False"
    and "\<And>i. Suc i < length xs \<Longrightarrow> get_next_segment st (xs ! i) = (True, xs ! Suc i)"
  shows "x = last xs"
proof -
  from assms(1) obtain i where i: "i < length xs" "xs ! i = x" by (auto simp: in_set_conv_nth)
  have "\<not> Suc i < length xs" using assms(2) assms(3)[of i] i by auto
  with i have "i = length xs - 1" by simp
  moreover from i have "xs \<noteq> []" by auto
  ultimately show ?thesis using i by (auto simp: last_conv_nth)
qed

lemma fragment_no_next_is_last:
  assumes "x \<in> set (fragment st ps k)" "fst (get_next_segment st x) = False"
  shows "x = last (fragment st ps k)"
  using assms unfolding fragment_def by (rule chain_no_next_is_last) (rule segments_from_next)

lemma next_joined_loop_True:
  assumes "next_joined_loop st sj = (True, sj')"
  shows "\<exists>k'. sj_path_index sj < k' \<and> k' < length (sj_paths sj) \<and>
           fragment st (sj_paths sj) k' \<noteq> [] \<and>
           (\<forall>j. sj_path_index sj < j \<and> j < k' \<longrightarrow> fragment st (sj_paths sj) j = []) \<and>
           sj' = sj\<lparr>sj_path_index := k', sj_segment := fragment st (sj_paths sj) k' ! 0\<rparr>"
  using assms
proof (induction "length (sj_paths sj) - sj_path_index sj" arbitrary: sj rule: less_induct)
  case less
  let ?k = "Suc (sj_path_index sj)"
  let ?sj = "sj\<lparr>sj_path_index := ?k\<rparr>"
  from less(2) obtain p where p: "path_at (sj_paths sj) ?k = Some p"
    by (subst (asm) next_joined_loop.simps) (auto simp: Let_def split: option.splits)
  then have lt: "?k < length (sj_paths sj)" and pk: "p = sj_paths sj ! ?k"
    by (auto simp: path_at_def split: if_splits)
  obtain b seg where f: "get_first_segment_without_root st p 0 = (b, seg)" by fastforce
  have fr: "fragment st (sj_paths sj) ?k = segments_from st p 0"
    by (simp add: fragment_def pk)
  show ?case
  proof (cases b)
    case True
    with less(2) p f have sj': "sj' = ?sj\<lparr>sj_segment := seg\<rparr>"
      by (subst (asm) next_joined_loop.simps) (simp add: Let_def)
    from f True have ne: "segments_from st p 0 \<noteq> []" by (simp add: segments_from_Nil)
    from segments_from_first[OF ne] f have "segments_from st p 0 ! 0 = seg" by simp
    with sj' fr ne lt show ?thesis by (intro exI[of _ ?k]) auto
  next
    case False
    with less(2) p f have r: "next_joined_loop st (?sj\<lparr>sj_segment := seg\<rparr>) = (True, sj')"
      by (subst (asm) next_joined_loop.simps) (simp add: Let_def)
    from f False have em: "fragment st (sj_paths sj) ?k = []"
      by (simp add: fr segments_from_Nil)
    have "length (sj_paths (?sj\<lparr>sj_segment := seg\<rparr>)) - sj_path_index (?sj\<lparr>sj_segment := seg\<rparr>)
            < length (sj_paths sj) - sj_path_index sj" using lt by simp
    from less(1)[OF this r] obtain k' where k': "?k < k'" "k' < length (sj_paths sj)"
      "fragment st (sj_paths sj) k' \<noteq> []"
      "\<And>j. ?k < j \<Longrightarrow> j < k' \<Longrightarrow> fragment st (sj_paths sj) j = []"
      "sj' = sj\<lparr>sj_path_index := k', sj_segment := fragment st (sj_paths sj) k' ! 0\<rparr>"
      by auto
    have "\<And>j. sj_path_index sj < j \<Longrightarrow> j < k' \<Longrightarrow> fragment st (sj_paths sj) j = []"
    proof -
      fix j assume "sj_path_index sj < j" "j < k'"
      then show "fragment st (sj_paths sj) j = []" using em k'(4)[of j] by (cases "j = ?k") auto
    qed
    with k'(1,2,3,5) show ?thesis by (intro exI[of _ k']) auto
  qed
qed

lemma prev_joined_loop_unfold:
  assumes "sj_path_index sj = Suc k" "k < length (sj_paths sj)"
  shows "prev_joined_loop st sj =
     (if fragment st (sj_paths sj) k = []
      then prev_joined_loop st
             (sj\<lparr>sj_path_index := k,
                  sj_segment := snd (get_first_segment_without_root st (sj_paths sj ! k)
                                       (if k = 0 then get_root st (sj_paths sj ! k) else 0))\<rparr>)
      else (True, sj\<lparr>sj_path_index := k, sj_segment := last (fragment st (sj_paths sj) k)\<rparr>))"
proof -
  have p: "path_at (sj_paths sj) k = Some (sj_paths sj ! k)"
    using assms(2) by (simp add: path_at_def)
  note gl = get_last_segment_fragment[where k = k and st = st and ps = "sj_paths sj"]
  show ?thesis
  proof (cases "k = 0")
    case True
    with gl assms(1) p show ?thesis
      by (subst prev_joined_loop.simps) (simp add: Let_def)
  next
    case False
    with gl assms(1) p show ?thesis
      by (subst prev_joined_loop.simps) (simp add: Let_def)
  qed
qed

lemma prev_joined_loop_found:
  assumes "sj_paths sj = ps" "k < sj_path_index sj" "sj_path_index sj \<le> length ps"
    and "fragment st ps k \<noteq> []"
    and "\<And>j. k < j \<Longrightarrow> j < sj_path_index sj \<Longrightarrow> fragment st ps j = []"
  shows "prev_joined_loop st sj =
           (True, sj\<lparr>sj_path_index := k, sj_segment := last (fragment st ps k)\<rparr>)"
  using assms
proof (induction "sj_path_index sj" arbitrary: sj rule: less_induct)
  case less
  from less(3) obtain k1 where k1: "sj_path_index sj = Suc k1" by (cases "sj_path_index sj") auto
  with less(4) less(2) have lt: "k1 < length (sj_paths sj)" by simp
  note u = prev_joined_loop_unfold[OF k1 lt, of st]
  show ?case
  proof (cases "k1 = k")
    case True
    with less(5) less(2) u show ?thesis by simp
  next
    case False
    with less(3) k1 have kk: "k < k1" by simp
    then have em: "fragment st ps k1 = []" using less(6)[of k1] k1 by simp
    define seg where "seg = snd (get_first_segment_without_root st (sj_paths sj ! k1)
                                       (if k1 = 0 then get_root st (sj_paths sj ! k1) else 0))"
    let ?sj2 = "sj\<lparr>sj_path_index := k1, sj_segment := seg\<rparr>"
    have "prev_joined_loop st ?sj2 =
        (True, ?sj2\<lparr>sj_path_index := k, sj_segment := last (fragment st ps k)\<rparr>)"
      using k1 less(2) kk lt less(5) less(6)
      by (intro less(1)) auto
    with em less(2) u show ?thesis by (simp add: seg_def)
  qed
qed

lemma prev_joined_loop_none:
  assumes "sj_paths sj = ps" "sj_path_index sj \<le> length ps"
    and "\<And>j. j < sj_path_index sj \<Longrightarrow> fragment st ps j = []"
  shows "fst (prev_joined_loop st sj) = False"
  using assms
proof (induction "sj_path_index sj" arbitrary: sj rule: less_induct)
  case less
  show ?case
  proof (cases "sj_path_index sj")
    case 0
    then show ?thesis by (subst prev_joined_loop.simps) simp
  next
    case (Suc k1)
    with less(3) less(2) have lt: "k1 < length (sj_paths sj)" by simp
    note u = prev_joined_loop_unfold[OF Suc lt, of st]
    have em: "fragment st ps k1 = []" using less(4)[of k1] Suc by simp
    define seg where "seg = snd (get_first_segment_without_root st (sj_paths sj ! k1)
                                       (if k1 = 0 then get_root st (sj_paths sj ! k1) else 0))"
    let ?sj2 = "sj\<lparr>sj_path_index := k1, sj_segment := seg\<rparr>"
    have "fst (prev_joined_loop st ?sj2) = False"
      using Suc less(2) lt less(4) by (intro less(1)) auto
    with em less(2) u show ?thesis by (simp add: seg_def)
  qed
qed

function sj_chain :: "cwk_path_style \<Rightarrow> cwk_segment_joined \<Rightarrow> cwk_segment_joined list" where
  "sj_chain st sj =
     sj # (case get_next_segment_joined st sj of
             (True, sj') \<Rightarrow> sj_chain st sj'
           | (False, sj') \<Rightarrow> [])"
  by pat_completeness auto
termination
  by (relation "inv_image fwd_rel (\<lambda>(st, sj). sj)")
     (simp add: wf_fwd_rel wf_inv_image, (clarsimp, rule next_joined_fwd_rel, erule sym))

declare sj_chain.simps [simp del]

text \<open>The joined stream of an array of fragments, as the list of its positions.\<close>

definition all_joined :: "cwk_path_style \<Rightarrow> string list \<Rightarrow> cwk_segment_joined list" where
  "all_joined st ps =
     (case get_first_segment_joined st ps uninitialized_sj of
        (True, sj) \<Rightarrow> sj_chain st sj
      | (False, sj) \<Rightarrow> [])"

definition sj_type :: "cwk_segment_joined \<Rightarrow> cwk_segment_type" where
  "sj_type sj = get_segment_type (sj_segment sj)"

lemma sj_chain_not_Nil [simp]: "sj_chain st sj \<noteq> []"
  by (subst sj_chain.simps) simp

lemma sj_chain_hd [simp]: "sj_chain st sj ! 0 = sj"
  by (subst sj_chain.simps) simp

lemma sj_chain_next:
  "Suc i < length (sj_chain st sj) \<Longrightarrow>
     get_next_segment_joined st (sj_chain st sj ! i) = (True, sj_chain st sj ! Suc i)"
proof (induction i arbitrary: sj)
  case 0
  obtain c s' where n: "get_next_segment_joined st sj = (c, s')" by fastforce
  from 0 n have c by (subst (asm) sj_chain.simps) (cases c; simp)
  with n show ?case
    by (subst (2) sj_chain.simps) simp
next
  case (Suc i)
  obtain c s' where n: "get_next_segment_joined st sj = (c, s')" by fastforce
  from Suc(2) n have c by (subst (asm) sj_chain.simps) (cases c; simp)
  with n have eq: "sj_chain st sj = sj # sj_chain st s'"
    by (subst sj_chain.simps) simp
  with Suc(2) have "Suc i < length (sj_chain st s')" by simp
  from Suc(1)[OF this] show ?case by (simp add: eq)
qed

lemma sj_chain_last:
  "fst (get_next_segment_joined st (last (sj_chain st sj))) = False"
proof (induction sj rule: wf_induct_rule[OF wf_fwd_rel])
  case (1 sj)
  obtain c s' where n: "get_next_segment_joined st sj = (c, s')" by fastforce
  show ?case
  proof (cases c)
    case True
    with n have eq: "sj_chain st sj = sj # sj_chain st s'"
      by (subst sj_chain.simps) simp
    from n True have "(s', sj) \<in> fwd_rel" by (simp add: next_joined_fwd_rel)
    from 1[OF this] show ?thesis by (simp add: eq)
  next
    case False
    with n have eq: "sj_chain st sj = [sj]" by (subst sj_chain.simps) simp
    from n False show ?thesis by (simp add: eq)
  qed
qed

lemma first_joined_loop_spec:
  assumes "rootless_tail st ps" "sj_paths sj = ps"
    and "\<And>j. j < sj_path_index sj \<Longrightarrow> fragment st ps j = []"
  shows "(case first_joined_loop st sj of
            (True, sj') \<Rightarrow>
              sj_path_index sj' < length ps \<and> fragment st ps (sj_path_index sj') \<noteq> [] \<and>
              (\<forall>j < sj_path_index sj'. fragment st ps j = []) \<and>
              sj' = sj\<lparr>sj_path_index := sj_path_index sj',
                       sj_segment := fragment st ps (sj_path_index sj') ! 0\<rparr>
          | (False, sj') \<Rightarrow> (\<forall>j < length ps. fragment st ps j = []))"
  using assms(2,3)
proof (induction "length ps - sj_path_index sj" arbitrary: sj rule: less_induct)
  case less
  let ?k = "sj_path_index sj"
  show ?case
  proof (cases "?k < length ps")
    case False
    then have "first_joined_loop st sj = (False, sj)"
      using less(2) by (subst first_joined_loop.simps) (simp add: path_at_def)
    with False less(3) show ?thesis by simp
  next
    case True
    then have p: "path_at (sj_paths sj) ?k = Some (ps ! ?k)"
      using less(2) by (simp add: path_at_def)
    have root: "get_root st (ps ! ?k) = (if ?k = 0 then get_root st (ps ! ?k) else 0)"
      using assms(1) True by (auto simp: rootless_tail_def)
    have fr: "fragment st ps ?k = segments_from st (ps ! ?k) (get_root st (ps ! ?k))"
      using root by (simp add: fragment_def)
    obtain b seg where f: "get_first_segment st (ps ! ?k) = (b, seg)" by fastforce
    then have f': "get_first_segment_without_root st (ps ! ?k) (get_root st (ps ! ?k)) = (b, seg)"
      by (simp add: get_first_segment_def)
    show ?thesis
    proof (cases b)
      case b: True
      with f p have r: "first_joined_loop st sj = (True, sj\<lparr>sj_segment := seg\<rparr>)"
        by (subst first_joined_loop.simps) simp
      from f' b have ne: "fragment st ps ?k \<noteq> []" by (simp add: fr segments_from_Nil)
      from segments_from_first[of st "ps ! ?k" "get_root st (ps ! ?k)"] ne f' fr
      have "fragment st ps ?k ! 0 = seg" by simp
      with r ne True less(3) show ?thesis by simp
    next
      case b: False
      let ?sj = "sj\<lparr>sj_segment := seg, sj_path_index := ?k + 1\<rparr>"
      from f p b have r: "first_joined_loop st sj = first_joined_loop st ?sj"
        by (subst first_joined_loop.simps) simp
      from f' b have em: "fragment st ps ?k = []" by (simp add: fr segments_from_Nil)
      have e2: "\<And>j. j < sj_path_index ?sj \<Longrightarrow> fragment st ps j = []"
      proof -
        fix j assume "j < sj_path_index ?sj"
        then show "fragment st ps j = []" using em less(3)[of j] by (cases "j = ?k") auto
      qed
      have "length ps - sj_path_index ?sj < length ps - ?k" using True by simp
      from less(1)[OF this _ e2] less(2) show ?thesis
        unfolding r by (auto split: prod.splits bool.splits)
    qed
  qed
qed

lemma get_first_segment_joined_spec:
  assumes "rootless_tail st ps"
  shows "(case get_first_segment_joined st ps sj0 of
            (True, sj') \<Rightarrow>
              joined_ok st ps sj' \<and> (\<forall>j < sj_path_index sj'. fragment st ps j = [])\<and>
              sj_segment sj' = fragment st ps (sj_path_index sj') ! 0
          | (False, sj') \<Rightarrow> (\<forall>j < length ps. fragment st ps j = []))"
proof -
  define sj where "sj = sj0\<lparr>sj_path_index := 0, sj_paths := ps\<rparr>"
  have a: "sj_paths sj = ps" "\<And>j. j < sj_path_index sj \<Longrightarrow> fragment st ps j = []"
    by (simp_all add: sj_def)
  obtain c sj' where r: "first_joined_loop st sj = (c, sj')" by fastforce
  note sp = first_joined_loop_spec[OF assms a, unfolded r]
  show ?thesis
  proof (cases c)
    case False
    with sp r show ?thesis by (simp add: get_first_segment_joined_def sj_def[symmetric])
  next
    case True
    with sp have k: "sj_path_index sj' < length ps" "fragment st ps (sj_path_index sj') \<noteq> []"
      "\<forall>j < sj_path_index sj'. fragment st ps j = []"
      and e: "sj' = sj\<lparr>sj_path_index := sj_path_index sj',
                       sj_segment := fragment st ps (sj_path_index sj') ! 0\<rparr>" by simp_all
    from e have seg: "sj_segment sj' = fragment st ps (sj_path_index sj') ! 0"
      and pa: "sj_paths sj' = ps"
      by (metis cwk_segment_joined.select_convs(1) cwk_segment_joined.surjective
                cwk_segment_joined.update_convs(1,3),
          metis a(1) cwk_segment_joined.select_convs(2) cwk_segment_joined.surjective
                cwk_segment_joined.update_convs(1,3))
    have "sj' = joined_at ps (sj_path_index sj') (sj_segment sj')"
      using pa by (simp add: joined_at_def)
    moreover have "sj_segment sj' \<in> set (fragment st ps (sj_path_index sj'))"
      using k(2) seg by (simp add: nth_mem)
    ultimately show ?thesis
      using k r True seg by (simp add: get_first_segment_joined_def sj_def[symmetric] joined_ok_def)
  qed
qed

lemma fragment_next:
  "Suc i < length (fragment st ps k) \<Longrightarrow>
     get_next_segment st (fragment st ps k ! i) = (True, fragment st ps k ! Suc i)"
  unfolding fragment_def by (rule segments_from_next)

lemma fragment_last:
  "fragment st ps k \<noteq> [] \<Longrightarrow>
     get_next_segment st (last (fragment st ps k)) = (False, last (fragment st ps k))"
  unfolding fragment_def by (rule segments_from_last)

lemma joined_ok_next:
  assumes ok: "joined_ok st ps sj" and nx: "get_next_segment_joined st sj = (True, sj')"
  shows "joined_ok st ps sj' \<and> get_previous_segment_joined st sj' = (True, sj)"
proof -
  let ?k = "sj_path_index sj"
  let ?s = "sj_segment sj"
  from ok have sj: "sj = joined_at ps ?k ?s" and k: "?k < length ps"
    and mem: "?s \<in> set (fragment st ps ?k)" by (simp_all add: joined_ok_def)
  from sj have pa: "sj_paths sj = ps" by (metis cwk_segment_joined.select_convs(2) joined_at_def)
  have p0: "path_at ps 0 \<noteq> None" using k by (auto simp: path_at_def)
  have pk: "path_at ps ?k \<noteq> None" using k by (simp add: path_at_def)
  have wf: "segment_wf st ?s" using mem by (simp add: fragment_def segments_from_props)
  obtain c seg where n: "get_next_segment st ?s = (c, seg)" by fastforce
  show ?thesis
  proof (cases c)
    case True
    with nx n pk pa have sj': "sj' = sj\<lparr>sj_segment := seg\<rparr>"
      by (simp add: get_next_segment_joined_def)
    from mem obtain i where i: "i < length (fragment st ps ?k)" "fragment st ps ?k ! i = ?s"
      by (auto simp: in_set_conv_nth)
    have si: "Suc i < length (fragment st ps ?k)"
    proof (rule ccontr)
      assume "\<not> Suc i < length (fragment st ps ?k)"
      with i have "?s = last (fragment st ps ?k)"
        by (metis Suc_lessI diff_Suc_1 last_conv_nth length_greater_0_conv less_nat_zero_code
            list.size(3))
      moreover have "fragment st ps ?k \<noteq> []" using i by auto
      ultimately have "get_next_segment st ?s = (False, ?s)"
        using fragment_last[of st ps ?k] by simp
      with n True show False by simp
    qed
    from fragment_next[OF si] i n True
    have "seg = fragment st ps ?k ! Suc i" by simp
    with si have m2: "seg \<in> set (fragment st ps ?k)" by (simp add: nth_mem)
    have ok': "joined_ok st ps sj'"
      using sj' m2 k pa by (simp add: joined_ok_def joined_at_def)
    from next_then_previous[OF wf] n True
    have "get_previous_segment st seg = (True, ?s)" by simp
    then have "get_previous_segment_joined st sj' = (True, sj)"
      using p0 pa by (simp add: get_previous_segment_joined_def sj')
    with ok' show ?thesis by simp
  next
    case False
    with n get_next_segment_False[of st ?s seg] have seg: "seg = ?s" by simp
    with nx n False pk pa have l: "next_joined_loop st sj = (True, sj')"
      by (simp add: get_next_segment_joined_def)
    from next_joined_loop_True[OF l] pa obtain k' where k': "?k < k'" "k' < length ps"
      "fragment st ps k' \<noteq> []" "\<And>j. ?k < j \<Longrightarrow> j < k' \<Longrightarrow> fragment st ps j = []"
      "sj' = sj\<lparr>sj_path_index := k', sj_segment := fragment st ps k' ! 0\<rparr>" by auto
    have ok': "joined_ok st ps sj'"
      using k'(2,3,5) pa by (simp add: joined_ok_def joined_at_def nth_mem)
    have last: "?s = last (fragment st ps ?k)"
      using mem n False by (intro fragment_no_next_is_last) simp_all
    have ne: "fragment st ps ?k \<noteq> []" using mem by auto
    have fp: "get_previous_segment st (fragment st ps k' ! 0) = (False, fragment st ps k' ! 0)"
      using k'(3) unfolding fragment_def by (rule segments_from_first_previous)
    have "prev_joined_loop st sj' =
            (True, sj'\<lparr>sj_path_index := ?k, sj_segment := last (fragment st ps ?k)\<rparr>)"
      using k' pa ne by (intro prev_joined_loop_found) auto
    also have "sj'\<lparr>sj_path_index := ?k, sj_segment := last (fragment st ps ?k)\<rparr> = sj"
      using last k'(5) by simp
    finally have "get_previous_segment_joined st sj' = (True, sj)"
      using p0 pa fp k'(5) by (simp add: get_previous_segment_joined_def)
    with ok' show ?thesis by simp
  qed
qed

lemma joined_first_no_previous:
  assumes "joined_ok st ps sj" "\<forall>j < sj_path_index sj. fragment st ps j = []"
    and "sj_segment sj = fragment st ps (sj_path_index sj) ! 0"
  shows "fst (get_previous_segment_joined st sj) = False"
proof -
  from assms(1) have pa: "sj_paths sj = ps" and k: "sj_path_index sj < length ps"
    and ne: "fragment st ps (sj_path_index sj) \<noteq> []"
    by (metis cwk_segment_joined.select_convs(2) joined_at_def joined_ok_def,
        auto simp: joined_ok_def)
  have fp: "get_previous_segment st (sj_segment sj) = (False, sj_segment sj)"
    unfolding assms(3) using ne unfolding fragment_def by (rule segments_from_first_previous)
  have "fst (prev_joined_loop st sj) = False"
    using pa k assms(2) by (intro prev_joined_loop_none[of sj ps]) auto
  then show ?thesis
    using fp by (simp add: get_previous_segment_joined_def)
qed

lemma all_joined_next:
  "Suc i < length (all_joined st ps) \<Longrightarrow>
     get_next_segment_joined st (all_joined st ps ! i) = (True, all_joined st ps ! Suc i)"
  by (auto simp: all_joined_def sj_chain_next split: prod.splits bool.splits)

lemma all_joined_last:
  "all_joined st ps \<noteq> [] \<Longrightarrow> fst (get_next_segment_joined st (last (all_joined st ps))) = False"
  by (auto simp: all_joined_def sj_chain_last split: prod.splits bool.splits)

lemma all_joined_first:
  "all_joined st ps \<noteq> [] \<Longrightarrow>
     get_first_segment_joined st ps uninitialized_sj = (True, all_joined st ps ! 0)"
  by (auto simp: all_joined_def split: prod.splits bool.splits)

lemma all_joined_Nil:
  "all_joined st ps = [] \<longleftrightarrow> \<not> fst (get_first_segment_joined st ps uninitialized_sj)"
  by (auto simp: all_joined_def split: prod.splits bool.splits)

lemma all_joined_ok:
  assumes "rootless_tail st ps" "i < length (all_joined st ps)"
  shows "joined_ok st ps (all_joined st ps ! i)"
  using assms(2)
proof (induction i)
  case 0
  then have "all_joined st ps \<noteq> []" by auto
  from all_joined_first[OF this] get_first_segment_joined_spec[OF assms(1), of uninitialized_sj]
  show ?case by simp
next
  case (Suc i)
  then have "joined_ok st ps (all_joined st ps ! i)" by simp
  from joined_ok_next[OF this all_joined_next[OF Suc(2)]] show ?case by simp
qed

lemma all_joined_previous:
  assumes "rootless_tail st ps" "Suc i < length (all_joined st ps)"
  shows "get_previous_segment_joined st (all_joined st ps ! Suc i) = (True, all_joined st ps ! i)"
proof -
  from assms have "joined_ok st ps (all_joined st ps ! i)" by (simp add: all_joined_ok)
  from joined_ok_next[OF this all_joined_next[OF assms(2)]] show ?thesis by simp
qed

lemma all_joined_first_previous:
  assumes "rootless_tail st ps" "all_joined st ps \<noteq> []"
  shows "fst (get_previous_segment_joined st (all_joined st ps ! 0)) = False"
proof -
  from all_joined_first[OF assms(2)] get_first_segment_joined_spec[OF assms(1), of uninitialized_sj]
  have "joined_ok st ps (all_joined st ps ! 0)"
    "\<forall>j < sj_path_index (all_joined st ps ! 0). fragment st ps j = []"
    "sj_segment (all_joined st ps ! 0) = fragment st ps (sj_path_index (all_joined st ps ! 0)) ! 0"
    by simp_all
  then show ?thesis by (rule joined_first_no_previous)
qed

lemma types_after_at:
  assumes "i < length (all_joined st ps)"
  shows "types_after st (all_joined st ps ! i) = map sj_type (drop (Suc i) (all_joined st ps))"
  using assms
proof (induction "length (all_joined st ps) - i" arbitrary: i)
  case 0
  then show ?case by simp
next
  case (Suc d)
  let ?J = "all_joined st ps"
  show ?case
  proof (cases "Suc i < length ?J")
    case True
    from Suc(2) have "d = length ?J - Suc i" by simp
    from Suc(1)[OF this True] all_joined_next[OF True] True show ?thesis
      by (subst types_after.simps) (simp add: sj_type_def Cons_nth_drop_Suc[symmetric])
  next
    case False
    with Suc(3) have "?J ! i = last ?J"
      by (metis Suc_lessI diff_Suc_1 last_conv_nth length_greater_0_conv less_nat_zero_code
          list.size(3))
    moreover have "?J \<noteq> []" using Suc(3) by auto
    ultimately have "fst (get_next_segment_joined st (?J ! i)) = False"
      using all_joined_last by metis
    with False show ?thesis
      by (subst types_after.simps) (auto split: prod.splits bool.splits)
  qed
qed

lemma types_before_at:
  assumes "rootless_tail st ps" "i < length (all_joined st ps)"
  shows "types_before st (all_joined st ps ! i) = rev (map sj_type (take i (all_joined st ps)))"
  using assms(2)
proof (induction i)
  case 0
  then have "all_joined st ps \<noteq> []" by auto
  from all_joined_first_previous[OF assms(1) this] show ?case
    by (subst types_before.simps) (auto split: prod.splits bool.splits)
next
  case (Suc i)
  from Suc have ih: "types_before st (all_joined st ps ! i) =
      rev (map sj_type (take i (all_joined st ps)))" by simp
  from all_joined_previous[OF assms(1) Suc(2)] ih Suc(2) show ?case
    by (subst types_before.simps) (simp add: sj_type_def take_Suc_conv_app_nth)
qed

text \<open>
  The decision of the resolver at position \<open>i\<close> of a joined stream, on the list of the
  types of the stream: the two counter loops as walks over the types before and after
  the position.
\<close>

definition elided_at :: "bool \<Rightarrow> cwk_segment_type list \<Rightarrow> nat \<Rightarrow> bool" where
  "elided_at absolute ts i =
     (case ts ! i of
        CWK_CURRENT \<Rightarrow> True
      | CWK_BACK \<Rightarrow> absolute \<or> walk_back 0 (rev (take i ts))
      | CWK_NORMAL \<Rightarrow> walk_forward 0 (drop (Suc i) ts))"

lemma removed_at:
  assumes "rootless_tail st ps" "i < length (all_joined st ps)"
  shows "segment_will_be_removed st (all_joined st ps ! i) absolute =
           elided_at absolute (map sj_type (all_joined st ps)) i"
proof -
  let ?J = "all_joined st ps"
  have ta: "types_after st (?J ! i) = drop (Suc i) (map sj_type ?J)"
    using types_after_at[OF assms(2)] by (simp add: drop_map)
  have tb: "types_before st (?J ! i) = rev (take i (map sj_type ?J))"
    using types_before_at[OF assms] by (simp add: take_map)
  have ty: "map sj_type ?J ! i = get_segment_type (sj_segment (?J ! i))"
    using assms(2) by (simp add: sj_type_def)
  show ?thesis
    unfolding segment_will_be_removed_walk elided_at_def ta tb ty ..
qed

section \<open>What the operations write\<close>

definition seg_text :: "cwk_segment \<Rightarrow> string" where
  "seg_text s = take (seg_size s) (drop (seg_begin s) (seg_path s))"

definition sj_text :: "cwk_segment_joined \<Rightarrow> string" where
  "sj_text sj = seg_text (sj_segment sj)"

text \<open>
  \<open>appended b b' pos s\<close>: the memory \<open>b'\<close> is \<open>b\<close> below \<open>pos\<close> and holds the string \<open>s\<close>
  from \<open>pos\<close> on.
\<close>

definition appended :: "buffer \<Rightarrow> buffer \<Rightarrow> nat \<Rightarrow> string \<Rightarrow> bool" where
  "appended b b' pos s = ((\<forall>j<pos. b' j = b j) \<and> (\<forall>j<length s. b' (pos + j) = s ! j))"

lemma appended_Nil [simp]: "appended b b pos []"
  by (simp add: appended_def)

lemma appended_trans:
  assumes "appended b b1 pos s1" "appended b1 b2 (pos + length s1) s2"
  shows "appended b b2 pos (s1 @ s2)"
proof -
  have "\<And>j. j < length (s1 @ s2) \<Longrightarrow> b2 (pos + j) = (s1 @ s2) ! j"
  proof -
    fix j assume j: "j < length (s1 @ s2)"
    show "b2 (pos + j) = (s1 @ s2) ! j"
    proof (cases "j < length s1")
      case True
      with assms show ?thesis by (simp add: appended_def nth_append)
    next
      case False
      then have e: "pos + j = pos + length s1 + (j - length s1)" by simp
      have l: "j - length s1 < length s2" using j False by simp
      from assms(2) have "\<forall>k<length s2. b2 (pos + length s1 + k) = s2 ! k"
        by (simp add: appended_def)
      with l have "b2 (pos + length s1 + (j - length s1)) = s2 ! (j - length s1)" by blast
      with e have "b2 (pos + j) = s2 ! (j - length s1)" by simp
      with False show ?thesis by (simp add: nth_append)
    qed
  qed
  moreover have "\<And>j. j < pos \<Longrightarrow> b2 j = b j" using assms by (simp add: appended_def)
  ultimately show ?thesis by (simp add: appended_def)
qed

lemma output_sized_appended:
  assumes "pos + len \<le> n" "off + len \<le> length str"
  shows "appended b (fst (output_sized b n pos str off len)) pos (take len (drop off str))"
proof -
  have amount: "(if n > pos + len then len else if n > pos then n - pos else 0) = len"
    using assms(1) by auto
  have "\<And>j. j < len \<Longrightarrow> char_at str (off + j) = str ! (off + j)"
    using assms(2) by (simp add: char_at_def)
  then show ?thesis
    using assms(2) by (auto simp: output_sized_def amount memmove_def appended_def Let_def)
qed

lemma segment_wf_bounds:
  assumes "segment_wf st s"
  shows "seg_begin s + seg_size s = seg_end s" "seg_end s \<le> length (seg_path s)"
    "seg_begin s < seg_end s"
proof -
  from assms show b: "seg_begin s < seg_end s" and "seg_begin s + seg_size s = seg_end s"
    by (simp_all add: segment_wf_def)
  from assms b have "char_at (seg_path s) (seg_end s - 1) \<noteq> NUL"
    by (simp add: segment_wf_def)
  then have "seg_end s - 1 < length (seg_path s)" by (rule char_at_neq_NUL_lt)
  with b show "seg_end s \<le> length (seg_path s)" by simp
qed

lemma seg_text_length: "segment_wf st s \<Longrightarrow> length (seg_text s) = seg_size s"
  using segment_wf_bounds[of st s] by (simp add: seg_text_def)

text \<open>
  The text a run of the join loop adds: the words, each after the separator when a
  segment was written before.
\<close>

fun join_words :: "char \<Rightarrow> bool \<Rightarrow> string list \<Rightarrow> string" where
  "join_words sep h [] = []"
| "join_words sep h (w # ws) = (if h then [sep] else []) @ w @ join_words sep True ws"

definition first_separator :: "cwk_path_style \<Rightarrow> char" where
  "first_separator st = hd (separators st)"

lemma output_separator_appended:
  assumes "pos + 1 \<le> n"
  shows "appended b (fst (output_separator st b n pos)) pos [first_separator st]"
proof -
  have "take 1 (drop 0 (separators st)) = [first_separator st]"
    by (cases st) (simp_all add: first_separator_def)
  moreover have "0 + 1 \<le> length (separators st)" by (cases st) simp_all
  ultimately show ?thesis
    using output_sized_appended[OF assms, of 0 "separators st" b]
    by (simp add: output_separator_def)
qed

lemma join_body_result:
  assumes wf: "segment_wf st (sj_segment sj)"
    and fits: "pos + length (join_words (first_separator st) h
                 (if segment_will_be_removed st sj a then [] else [sj_text sj])) \<le> n"
  shows "\<exists>b'. join_body st sj a b n pos h =
           (b', pos + length (join_words (first_separator st) h
                  (if segment_will_be_removed st sj a then [] else [sj_text sj])),
            h \<or> \<not> segment_will_be_removed st sj a) \<and>
           appended b b' pos (join_words (first_separator st) h
              (if segment_will_be_removed st sj a then [] else [sj_text sj]))"
proof (cases "segment_will_be_removed st sj a")
  case True
  then show ?thesis by (simp add: join_body_def)
next
  case False
  let ?s = "sj_segment sj"
  note bd = segment_wf_bounds[OF wf]
  have len: "length (sj_text sj) = seg_size ?s"
    using wf by (simp add: sj_text_def seg_text_length)
  show ?thesis
  proof (cases h)
    case h: False
    from fits False h len have f: "pos + seg_size ?s \<le> n" by simp
    from output_sized_appended[OF f, of "seg_begin ?s" "seg_path ?s" b] bd
    have "appended b (fst (output_sized b n pos (seg_path ?s) (seg_begin ?s) (seg_size ?s)))
            pos (sj_text sj)"
      by (simp add: sj_text_def seg_text_def)
    with False h len show ?thesis
      by (simp add: join_body_def split_def Let_def)
  next
    case h: True
    from fits False h len have f: "pos + 1 + seg_size ?s \<le> n" by simp
    let ?b1 = "fst (output_separator st b n pos)"
    have a1: "appended b ?b1 pos [first_separator st]"
      using f by (intro output_separator_appended) simp
    from output_sized_appended[OF f, of "seg_begin ?s" "seg_path ?s" ?b1] bd
    have a2: "appended ?b1 (fst (output_sized ?b1 n (pos + 1) (seg_path ?s) (seg_begin ?s)
                (seg_size ?s))) (pos + length [first_separator st]) (sj_text sj)"
      by (simp add: sj_text_def seg_text_def)
    from appended_trans[OF a1 a2] False h len show ?thesis
      by (simp add: join_body_def split_def Let_def)
  qed
qed

lemma join_words_append:
  "join_words sep h (xs @ ys) = join_words sep h xs @ join_words sep (h \<or> xs \<noteq> []) ys"
  by (induction xs arbitrary: h) auto

definition kept_from ::
  "cwk_path_style \<Rightarrow> bool \<Rightarrow> cwk_segment_joined list \<Rightarrow> nat \<Rightarrow> cwk_segment_joined list" where
  "kept_from st a J i = filter (\<lambda>x. \<not> segment_will_be_removed st x a) (drop i J)"

lemma kept_from_step:
  "i < length J \<Longrightarrow>
     kept_from st a J i =
       (if segment_will_be_removed st (J ! i) a then [] else [J ! i]) @ kept_from st a J (Suc i)"
  by (simp add: kept_from_def Cons_nth_drop_Suc[symmetric])

lemma kept_from_end [simp]: "length J \<le> i \<Longrightarrow> kept_from st a J i = []"
  by (simp add: kept_from_def)

lemma joined_ok_wf:
  assumes "joined_ok st ps sj"
  shows "segment_wf st (sj_segment sj)" "seg_path (sj_segment sj) = ps ! sj_path_index sj"
proof -
  from assms have "sj_segment sj \<in> set (fragment st ps (sj_path_index sj))"
    by (simp add: joined_ok_def)
  from segments_from_props[OF this[unfolded fragment_def]]
  show "segment_wf st (sj_segment sj)" "seg_path (sj_segment sj) = ps ! sj_path_index sj"
    by simp_all
qed

lemma join_loop_result:
  assumes rt: "rootless_tail st ps" and i: "i < length (all_joined st ps)"
    and fits: "pos + length (join_words (first_separator st) h
                 (map sj_text (kept_from st a (all_joined st ps) i))) \<le> n"
  shows "\<exists>b'. join_loop st (all_joined st ps ! i) a b n pos h =
           (b', pos + length (join_words (first_separator st) h
                   (map sj_text (kept_from st a (all_joined st ps) i))),
            h \<or> kept_from st a (all_joined st ps) i \<noteq> []) \<and>
           appended b b' pos (join_words (first_separator st) h
              (map sj_text (kept_from st a (all_joined st ps) i)))"
  using i fits
proof (induction "length (all_joined st ps) - i" arbitrary: i b pos h)
  case 0
  then show ?case by simp
next
  case (Suc d)
  let ?J = "all_joined st ps"
  let ?sep = "first_separator st"
  let ?sj = "?J ! i"
  define w0 where "w0 = (if segment_will_be_removed st ?sj a then [] else [sj_text ?sj])"
  define W1 where "W1 = map sj_text (kept_from st a ?J (Suc i))"
  have W: "map sj_text (kept_from st a ?J i) = w0 @ W1"
    using Suc(3) by (simp add: kept_from_step w0_def W1_def)
  have h1: "(h \<or> w0 \<noteq> []) = (h \<or> \<not> segment_will_be_removed st ?sj a)"
    by (simp add: w0_def)
  have ne: "kept_from st a ?J i \<noteq> [] \<longleftrightarrow>
      \<not> segment_will_be_removed st ?sj a \<or> kept_from st a ?J (Suc i) \<noteq> []"
    using Suc(3) by (simp add: kept_from_step)
  from all_joined_ok[OF rt Suc(3)] have wf: "segment_wf st (sj_segment ?sj)"
    by (rule joined_ok_wf)
  have full: "join_words ?sep h (w0 @ W1) =
      join_words ?sep h w0 @ join_words ?sep (h \<or> w0 \<noteq> []) W1"
    by (rule join_words_append)
  have fitsW: "pos + length (join_words ?sep h w0) +
      length (join_words ?sep (h \<or> \<not> segment_will_be_removed st ?sj a) W1) \<le> n"
    using Suc(4) by (simp add: W full h1)
  then have fits0: "pos + length (join_words ?sep h w0) \<le> n" by simp
  from join_body_result[OF wf, of pos h a n b] fits0
  obtain b1 where jb: "join_body st ?sj a b n pos h =
        (b1, pos + length (join_words ?sep h w0), h \<or> \<not> segment_will_be_removed st ?sj a)"
    and a1: "appended b b1 pos (join_words ?sep h w0)"
    unfolding w0_def by blast
  let ?pos1 = "pos + length (join_words ?sep h w0)"
  let ?h1 = "h \<or> \<not> segment_will_be_removed st ?sj a"
  show ?case
  proof (cases "Suc i < length ?J")
    case True
    from Suc(2) have d: "d = length ?J - Suc i" by simp
    have fits1: "?pos1 + length (join_words ?sep ?h1 (map sj_text (kept_from st a ?J (Suc i)))) \<le> n"
      using fitsW by (simp add: W1_def)
    from Suc(1)[OF d True fits1, of b1]
    obtain b2 where jl: "join_loop st (?J ! Suc i) a b1 n ?pos1 ?h1 =
        (b2, ?pos1 + length (join_words ?sep ?h1 W1), ?h1 \<or> kept_from st a ?J (Suc i) \<noteq> [])"
      and a2: "appended b1 b2 ?pos1 (join_words ?sep ?h1 W1)"
      unfolding W1_def by blast
    have "join_loop st ?sj a b n pos h =
        (b2, ?pos1 + length (join_words ?sep ?h1 W1), ?h1 \<or> kept_from st a ?J (Suc i) \<noteq> [])"
      by (subst join_loop.simps) (simp add: jb all_joined_next[OF True] jl)
    moreover have "appended b b2 pos (join_words ?sep h (w0 @ W1))"
      unfolding full h1 using a1 a2 by (rule appended_trans)
    ultimately show ?thesis
      unfolding W using ne by (simp add: full h1 add.assoc)
  next
    case False
    with Suc(3) have "?J ! i = last ?J"
      by (metis Suc_lessI diff_Suc_1 last_conv_nth length_greater_0_conv less_nat_zero_code
          list.size(3))
    moreover have "?J \<noteq> []" using Suc(3) by auto
    ultimately have nx: "fst (get_next_segment_joined st ?sj) = False"
      using all_joined_last by metis
    from False have e: "W1 = []" "kept_from st a ?J (Suc i) = []" by (simp_all add: W1_def)
    have "join_loop st ?sj a b n pos h = (b1, ?pos1, ?h1)"
      using nx by (subst join_loop.simps) (auto simp: jb split: prod.splits bool.splits)
    with a1 show ?thesis
      unfolding W using ne e by simp
  qed
qed

text \<open>The string \<open>join_and_normalize_multiple\<close> produces for an array of fragments.\<close>

definition joined_string :: "cwk_path_style \<Rightarrow> string list \<Rightarrow> string" where
  "joined_string st ps =
     (let r = get_root st (ps ! 0);
          a = is_root_absolute st (ps ! 0) r;
          J = all_joined st ps;
          W = map sj_text (kept_from st a J 0)
      in if J \<noteq> [] \<and> W = [] \<and> r = 0 then ''.''
         else take r (ps ! 0) @ join_words (first_separator st) False W)"

text \<open>\<open>holds_string b s\<close>: the memory holds the bytes of \<open>s\<close> followed by the terminator.\<close>

definition holds_string :: "buffer \<Rightarrow> string \<Rightarrow> bool" where
  "holds_string b s = ((\<forall>j<length s. b j = s ! j) \<and> b (length s) = NUL)"

lemma terminate_holds:
  assumes "appended b0 b 0 s" "length s < n"
  shows "holds_string (terminate_output b n (length s)) s"
  using assms by (auto simp: holds_string_def terminate_output_def appended_def)

lemma output_current_appended:
  assumes "pos + 1 \<le> n"
  shows "appended b (fst (output_current b n pos)) pos ''.''"
  using output_sized_appended[OF assms, of 0 "''.''" b] by (simp add: output_current_def)

lemma jnm_result:
  assumes rt: "rootless_tail st ps" and fits: "length (joined_string st ps) < n"
  shows "\<exists>b'. join_and_normalize_multiple st ps b n = (b', length (joined_string st ps)) \<and>
           holds_string b' (joined_string st ps)"
proof -
  let ?p = "ps ! 0"
  let ?r = "get_root st ?p"
  let ?a = "is_root_absolute st ?p ?r"
  let ?J = "all_joined st ps"
  let ?sep = "first_separator st"
  define W where "W = map sj_text (kept_from st ?a ?J 0)"
  let ?b0 = "fst (output_sized b n 0 ?p 0 ?r)"
  have rl: "?r \<le> length ?p" by (rule get_root_le)
  have mn: "min (length ?p) ?r = ?r" using rl by simp
  have lr: "length (take ?r ?p) = ?r" using rl by simp
  have js: "joined_string st ps =
      (if ?J \<noteq> [] \<and> W = [] \<and> ?r = 0 then ''.'' else take ?r ?p @ join_words ?sep False W)"
    by (simp only: joined_string_def Let_def W_def)
  have rn: "?r \<le> n" using fits lr unfolding js by (auto split: if_splits)
  have a0: "appended b ?b0 0 (take ?r ?p)"
    using output_sized_appended[of 0 ?r n 0 ?p b] rn rl by simp
  show ?thesis
  proof (cases "?J = []")
    case True
    then have f: "fst (get_first_segment_joined st ps uninitialized_sj) = False"
      by (simp add: all_joined_Nil)
    from True have W0: "W = []" by (simp add: W_def kept_from_def)
    have out: "joined_string st ps = take ?r ?p" using True W0 by (simp add: js)
    have "join_and_normalize_multiple st ps b n = (terminate_output ?b0 n ?r, ?r)"
      using f by (simp add: join_and_normalize_multiple_def split_def Let_def
          split: prod.splits bool.splits)
    moreover have "holds_string (terminate_output ?b0 n (length (take ?r ?p))) (take ?r ?p)"
      using a0 fits unfolding out by (rule terminate_holds)
    ultimately show ?thesis unfolding out by (simp add: mn)
  next
    case False
    then have f: "get_first_segment_joined st ps uninitialized_sj = (True, ?J ! 0)"
      by (rule all_joined_first)
    from False have i0: "0 < length ?J" by simp
    have fitsl: "?r + length (join_words ?sep False (map sj_text (kept_from st ?a ?J 0))) \<le> n"
      using fits lr unfolding js W_def[symmetric] by (auto split: if_splits)
    from join_loop_result[OF rt i0 fitsl, of ?b0]
    obtain b1 where jl: "join_loop st (?J ! 0) ?a ?b0 n ?r False =
          (b1, ?r + length (join_words ?sep False W), kept_from st ?a ?J 0 \<noteq> [])"
      and a1: "appended ?b0 b1 ?r (join_words ?sep False W)"
      unfolding W_def by auto
    have a01: "appended b b1 0 (take ?r ?p @ join_words ?sep False W)"
      using a0 a1 by (intro appended_trans) (simp_all add: mn)
    have Wne: "kept_from st ?a ?J 0 \<noteq> [] \<longleftrightarrow> W \<noteq> []" by (simp add: W_def)
    show ?thesis
    proof (cases "W = [] \<and> ?r = 0")
      case True
      then have out: "joined_string st ps = ''.''" using False by (simp add: js)
      let ?b2 = "fst (output_current b1 n 0)"
      have "appended b1 ?b2 0 ''.''"
        using fits unfolding out by (intro output_current_appended) simp
      moreover have "length ''.'' < n" using fits unfolding out .
      ultimately have "holds_string (terminate_output ?b2 n (length ''.'')) ''.''"
        by (rule terminate_holds)
      moreover have "join_and_normalize_multiple st ps b n = (terminate_output ?b2 n 1, 1)"
        using f jl True Wne
        by (simp add: join_and_normalize_multiple_def split_def Let_def)
      ultimately show ?thesis unfolding out by simp
    next
      case nt: False
      then have out: "joined_string st ps = take ?r ?p @ join_words ?sep False W"
        by (auto simp: js)
      have lo: "length (joined_string st ps) = ?r + length (join_words ?sep False W)"
        unfolding out by (simp add: mn)
      have "holds_string (terminate_output b1 n (length (joined_string st ps)))
              (joined_string st ps)"
        using a01 fits unfolding out by (rule terminate_holds)
      moreover have "join_and_normalize_multiple st ps b n =
          (terminate_output b1 n (?r + length (join_words ?sep False W)),
           ?r + length (join_words ?sep False W))"
        using f jl nt Wne
        by (auto simp: join_and_normalize_multiple_def split_def Let_def)
      ultimately show ?thesis by (simp add: lo)
    qed
  qed
qed

section \<open>Segments of a string built from words\<close>

definition text_type :: "string \<Rightarrow> cwk_segment_type" where
  "text_type w = (if w = ''.'' then CWK_CURRENT else if w = ''..'' then CWK_BACK else CWK_NORMAL)"

lemma strncmp_is_0_iff:
  assumes "\<And>k. k < n \<Longrightarrow> char_at p (i + k) \<noteq> NUL"
  shows "strncmp_is_0 p i q j n \<longleftrightarrow> (\<forall>k<n. char_at p (i + k) = char_at q (j + k))"
  using assms
proof (induction n arbitrary: i j)
  case 0
  then show ?case by simp
next
  case (Suc n)
  have nn: "char_at p i \<noteq> NUL" using Suc(2)[of 0] by simp
  have ih: "strncmp_is_0 p (i + 1) q (j + 1) n \<longleftrightarrow>
      (\<forall>k<n. char_at p (i + 1 + k) = char_at q (j + 1 + k))"
    using Suc(2) by (intro Suc(1)) (metis Suc_less_eq add.assoc plus_1_eq_Suc)
  have split: "(\<forall>k<Suc n. char_at p (i + k) = char_at q (j + k)) \<longleftrightarrow>
      char_at p i = char_at q j \<and> (\<forall>k<n. char_at p (i + 1 + k) = char_at q (j + 1 + k))"
  proof
    assume a: "\<forall>k<Suc n. char_at p (i + k) = char_at q (j + k)"
    then have "char_at p i = char_at q j" by (metis add.right_neutral zero_less_Suc)
    moreover have "\<forall>k<n. char_at p (i + 1 + k) = char_at q (j + 1 + k)"
    proof (intro allI impI)
      fix k assume "k < n"
      then have "char_at p (i + Suc k) = char_at q (j + Suc k)"
        using a[rule_format, of "Suc k"] by simp
      then show "char_at p (i + 1 + k) = char_at q (j + 1 + k)" by simp
    qed
    ultimately show "char_at p i = char_at q j \<and>
        (\<forall>k<n. char_at p (i + 1 + k) = char_at q (j + 1 + k))" by simp
  next
    assume a: "char_at p i = char_at q j \<and>
        (\<forall>k<n. char_at p (i + 1 + k) = char_at q (j + 1 + k))"
    show "\<forall>k<Suc n. char_at p (i + k) = char_at q (j + k)"
    proof (intro allI impI)
      fix k assume k: "k < Suc n"
      show "char_at p (i + k) = char_at q (j + k)"
      proof (cases k)
        case 0 with a show ?thesis by simp
      next
        case (Suc m)
        with k a have "char_at p (i + 1 + m) = char_at q (j + 1 + m)" by simp
        with Suc show ?thesis by simp
      qed
    qed
  qed
  show ?case unfolding split using nn ih by simp
qed

lemma seg_text_nth:
  assumes "segment_wf st s" "k < seg_size s"
  shows "seg_text s ! k = char_at (seg_path s) (seg_begin s + k)"
  using assms segment_wf_bounds[OF assms(1)]
  by (simp add: seg_text_def char_at_def)

lemma get_segment_type_text:
  assumes wf: "segment_wf st s"
  shows "get_segment_type s = text_type (seg_text s)"
proof -
  let ?p = "seg_path s" and ?b = "seg_begin s" and ?n = "seg_size s"
  note bd = segment_wf_bounds[OF wf]
  have n1: "1 \<le> ?n" using bd by simp
  have nn: "\<And>k. k < ?n \<Longrightarrow> char_at ?p (?b + k) \<noteq> NUL"
    using wf bd by (simp add: segment_wf_def)
  have len: "length (seg_text s) = ?n" using wf by (rule seg_text_length)
  have eq: "\<And>q. strncmp_is_0 ?p ?b q 0 ?n \<longleftrightarrow> (\<forall>k<?n. seg_text s ! k = char_at q k)"
    using strncmp_is_0_iff[of ?n ?p ?b _ 0, OF nn] seg_text_nth[OF wf] by simp
  have cur: "(\<forall>k<?n. seg_text s ! k = char_at ''.'' k) \<longleftrightarrow> seg_text s = ''.''"
  proof
    assume a: "\<forall>k<?n. seg_text s ! k = char_at ''.'' k"
    have "?n = 1"
    proof (rule ccontr)
      assume "?n \<noteq> 1"
      with n1 have "1 < ?n" by simp
      with a have "seg_text s ! 1 = NUL" by (simp add: char_at_def)
      with nn[of 1] seg_text_nth[OF wf, of 1] \<open>1 < ?n\<close> show False by simp
    qed
    with a len show "seg_text s = ''.''"
      by (cases "seg_text s") (auto simp: char_at_def)
  next
    assume "seg_text s = ''.''"
    with len show "\<forall>k<?n. seg_text s ! k = char_at ''.'' k"
      by (auto simp: char_at_def)
  qed
  have bk: "(\<forall>k<?n. seg_text s ! k = char_at ''..'' k) \<longleftrightarrow>
      seg_text s = ''.'' \<or> seg_text s = ''..''"
  proof
    assume a: "\<forall>k<?n. seg_text s ! k = char_at ''..'' k"
    have "?n \<le> 2"
    proof (rule ccontr)
      assume "\<not> ?n \<le> 2"
      then have "2 < ?n" by simp
      with a have "seg_text s ! 2 = NUL" by (simp add: char_at_def)
      with nn[of 2] seg_text_nth[OF wf, of 2] \<open>2 < ?n\<close> show False by simp
    qed
    with n1 have "?n = 1 \<or> ?n = 2" by auto
    then show "seg_text s = ''.'' \<or> seg_text s = ''..''"
    proof
      assume "?n = 1"
      with a len show ?thesis by (cases "seg_text s") (auto simp: char_at_def)
    next
      assume n2: "?n = 2"
      with len obtain x y where xy: "seg_text s = [x, y]"
        by (cases "seg_text s"; cases "tl (seg_text s)") auto
      from a n2 have "seg_text s ! 0 = CHR ''.''" "seg_text s ! 1 = CHR ''.''"
        by (simp_all add: char_at_def)
      with xy show ?thesis by simp
    qed
  next
    assume "seg_text s = ''.'' \<or> seg_text s = ''..''"
    with len show "\<forall>k<?n. seg_text s ! k = char_at ''..'' k"
      by (auto simp: char_at_def less_Suc_eq)
  qed
  show ?thesis
    by (auto simp: get_segment_type_def text_type_def eq cur bk)
qed

definition word_ok :: "cwk_path_style \<Rightarrow> string \<Rightarrow> bool" where
  "word_ok st w = (w \<noteq> [] \<and> (\<forall>c\<in>set w. c \<noteq> NUL \<and> \<not> is_separator st c))"

lemma char_at_append_left: "i < length xs \<Longrightarrow> char_at (xs @ ys) i = xs ! i"
  by (simp add: char_at_def nth_append)

lemma char_at_append_right: "char_at (xs @ ys) (length xs + i) = char_at ys i"
  by (simp add: char_at_def nth_append)

lemma char_at_Nil [simp]: "char_at [] i = NUL"
  by (simp add: char_at_def)

lemma char_at_0_Cons [simp]: "char_at (c # cs) 0 = c"
  by (simp add: char_at_def)

lemma first_separator_is_separator [simp]: "is_separator st (first_separator st)"
  by (cases st) (simp_all add: first_separator_def is_separator_def)

lemma word_scan:
  assumes w: "word_ok st w" and stop: "char_at rest 0 = NUL \<or> is_separator st (char_at rest 0)"
  shows "find_next_stop st (pre @ w @ rest) (length pre) = length pre + length w"
proof (rule find_next_stop_eqI)
  show "length pre \<le> length pre + length w" by simp
next
  fix i assume i: "length pre \<le> i" "i < length pre + length w"
  then obtain k where k: "i = length pre + k" "k < length w"
    by (metis add_diff_inverse_nat less_diff_conv2 not_less add.commute)
  have "char_at (pre @ w @ rest) i = w ! k"
    unfolding k(1) char_at_append_right using k(2) by (simp add: char_at_append_left)
  moreover have "w ! k \<in> set w" using k(2) by simp
  ultimately show "char_at (pre @ w @ rest) i \<noteq> NUL \<and>
      \<not> is_separator st (char_at (pre @ w @ rest) i)"
    using w by (simp add: word_ok_def)
next
  have "char_at (pre @ w @ rest) (length pre + length w) = char_at rest 0"
    using char_at_append_right[of "pre @ w" rest 0] by simp
  with stop show "char_at (pre @ w @ rest) (length pre + length w) = NUL \<or>
      is_separator st (char_at (pre @ w @ rest) (length pre + length w))" by simp
qed

lemma word_first_char:
  assumes "word_ok st w"
  shows "char_at (pre @ w @ rest) (length pre) \<noteq> NUL"
    "\<not> is_separator st (char_at (pre @ w @ rest) (length pre))"
proof -
  from assms have "0 < length w" "w ! 0 \<in> set w" by (auto simp: word_ok_def)
  moreover have "char_at (pre @ w @ rest) (length pre) = w ! 0"
    using char_at_append_right[of pre "w @ rest" 0] \<open>0 < length w\<close>
    by (simp add: char_at_append_left)
  ultimately show "char_at (pre @ w @ rest) (length pre) \<noteq> NUL"
    "\<not> is_separator st (char_at (pre @ w @ rest) (length pre))"
    using assms by (simp_all add: word_ok_def)
qed

lemma join_words_stop:
  "char_at (join_words (first_separator st) True ws) 0 = NUL \<or>
   is_separator st (char_at (join_words (first_separator st) True ws) 0)"
  by (cases ws) simp_all

lemma seg_chain_True:
  "get_next_segment st s = (True, s') \<Longrightarrow> seg_chain st s = s # seg_chain st s'"
  by (subst seg_chain.simps) simp

lemma seg_chain_False:
  "get_next_segment st s = (False, s') \<Longrightarrow> seg_chain st s = [s]"
  by (subst seg_chain.simps) simp

lemma seg_chain_words:
  assumes "word_ok st w" "\<forall>x\<in>set ws. word_ok st x"
  shows "map seg_text
           (seg_chain st \<lparr>seg_path = pre @ w @ join_words (first_separator st) True ws,
              seg_segments = g, seg_begin = length pre, seg_end = length pre + length w,
              seg_size = length w\<rparr>) = w # ws"
  using assms
proof (induction ws arbitrary: pre w)
  case Nil
  let ?s = "\<lparr>seg_path = pre @ w @ [], seg_segments = g, seg_begin = length pre,
              seg_end = length pre + length w, seg_size = length w\<rparr>"
  have "get_next_segment st ?s = (False, ?s)"
    by (simp add: get_next_segment_def)
  then have "seg_chain st ?s = [?s]" by (rule seg_chain_False)
  then show ?case by (simp add: seg_text_def)
next
  case (Cons w2 ws)
  let ?sep = "first_separator st"
  let ?rest2 = "join_words ?sep True ws"
  let ?q = "pre @ w @ join_words ?sep True (w2 # ws)"
  let ?s = "\<lparr>seg_path = ?q, seg_segments = g, seg_begin = length pre,
              seg_end = length pre + length w, seg_size = length w\<rparr>"
  let ?pre2 = "pre @ w @ [?sep]"
  have q: "?q = ?pre2 @ w2 @ ?rest2" by simp
  let ?c = "length pre + length w"
  have c0: "char_at ?q ?c = ?sep"
    using char_at_append_right[of "pre @ w" "join_words ?sep True (w2 # ws)" 0] by simp
  have w2: "word_ok st w2" using Cons(3) by simp
  have l2: "length ?pre2 = ?c + 1" by simp
  have ns: "\<not> is_separator st (char_at ?q (?c + 1))" and nn: "char_at ?q (?c + 1) \<noteq> NUL"
    unfolding q using word_first_char[OF w2, of ?pre2 ?rest2] unfolding l2 by simp_all
  have sk: "next_skip st ?q ?c = ?c + 1"
    using ns by (intro next_skip_eqI) simp_all
  have fs: "find_next_stop st ?q (?c + 1) = ?c + 1 + length w2"
    unfolding q using word_scan[OF w2 join_words_stop, of ?pre2 ws] unfolding l2 .
  have sepnn: "?sep \<noteq> NUL" using not_sep_NUL[of st] first_separator_is_separator[of st]
    by metis
  let ?s2 = "\<lparr>seg_path = ?pre2 @ w2 @ ?rest2, seg_segments = g, seg_begin = length ?pre2,
              seg_end = length ?pre2 + length w2, seg_size = length w2\<rparr>"
  have nx: "get_next_segment st ?s = (True, ?s2)"
    using c0 sepnn nn sk fs by (simp add: get_next_segment_def Let_def)
  have "seg_chain st ?s = ?s # seg_chain st ?s2"
    using nx by (rule seg_chain_True)
  moreover have "map seg_text (seg_chain st ?s2) = w2 # ws"
    using Cons(3) by (intro Cons(1)) simp_all
  moreover have "seg_text ?s = w" by (simp add: seg_text_def)
  ultimately show ?case by simp
qed

lemma segments_from_words:
  assumes "\<forall>x\<in>set ws. word_ok st x"
  shows "map seg_text (segments_from st (R @ join_words (first_separator st) False ws) (length R))
           = ws"
proof (cases ws)
  case Nil
  then show ?thesis
    by (simp add: segments_from_def get_first_segment_without_root_def)
next
  case (Cons w ws')
  let ?sep = "first_separator st"
  let ?q = "R @ w @ join_words ?sep True ws'"
  from assms Cons have w: "word_ok st w" and ws': "\<forall>x\<in>set ws'. word_ok st x" by simp_all
  note fc = word_first_char[OF w, of R "join_words ?sep True ws'"]
  have sk: "first_skip st ?q (length R) = Some (length R)"
    using fc(2) by (subst first_skip.simps) simp
  have fs: "find_next_stop st ?q (length R) = length R + length w"
    using word_scan[OF w join_words_stop, of R ws'] .
  let ?s = "\<lparr>seg_path = ?q, seg_segments = length R, seg_begin = length R,
              seg_end = length R + length w, seg_size = length w\<rparr>"
  have "get_first_segment_without_root st ?q (length R) = (True, ?s)"
    using fc(1) sk fs by (simp add: get_first_segment_without_root_def Let_def)
  then have "segments_from st ?q (length R) = seg_chain st ?s"
    by (simp add: segments_from_def)
  with seg_chain_words[OF w ws', of R "length R"] Cons show ?thesis by simp
qed

lemma seg_text_word_ok:
  assumes "segment_wf st s"
  shows "word_ok st (seg_text s)"
proof -
  note bd = segment_wf_bounds[OF assms]
  have len: "length (seg_text s) = seg_size s" using assms by (rule seg_text_length)
  have "\<And>c. c \<in> set (seg_text s) \<Longrightarrow> c \<noteq> NUL \<and> \<not> is_separator st c"
  proof -
    fix c assume "c \<in> set (seg_text s)"
    then obtain k where k: "k < seg_size s" "seg_text s ! k = c"
      using len by (auto simp: in_set_conv_nth)
    with seg_text_nth[OF assms k(1)] have "c = char_at (seg_path s) (seg_begin s + k)" by simp
    with assms k(1) bd show "c \<noteq> NUL \<and> \<not> is_separator st c"
      by (simp add: segment_wf_def)
  qed
  moreover have "seg_text s \<noteq> []" using len bd by auto
  ultimately show ?thesis by (simp add: word_ok_def)
qed

section \<open>The joined stream is the concatenation of the fragments\<close>

definition flat_from :: "cwk_path_style \<Rightarrow> string list \<Rightarrow> nat \<Rightarrow> cwk_segment_joined list" where
  "flat_from st ps k =
     concat (map (\<lambda>j. map (joined_at ps j) (fragment st ps j)) [k..<length ps])"

lemma flat_from_end [simp]: "length ps \<le> k \<Longrightarrow> flat_from st ps k = []"
  by (simp add: flat_from_def)

lemma flat_from_unfold:
  "k < length ps \<Longrightarrow>
     flat_from st ps k = map (joined_at ps k) (fragment st ps k) @ flat_from st ps (Suc k)"
  by (simp add: flat_from_def upt_conv_Cons)

lemma flat_from_skip:
  assumes "\<And>j. k \<le> j \<Longrightarrow> j < k' \<Longrightarrow> fragment st ps j = []" "k \<le> k'" "k' \<le> length ps"
  shows "flat_from st ps k = flat_from st ps k'"
  using assms
proof (induction "k' - k" arbitrary: k)
  case 0
  then show ?case by simp
next
  case (Suc d)
  then have lt: "k < k'" "k < length ps" by simp_all
  have "fragment st ps k = []" using Suc(3)[of k] lt by simp
  then have "flat_from st ps k = flat_from st ps (Suc k)"
    using lt by (simp add: flat_from_unfold)
  also have "\<dots> = flat_from st ps k'"
    using Suc(2,3,5) lt by (intro Suc(1)) simp_all
  finally show ?case .
qed

lemma next_joined_loop_False:
  assumes "next_joined_loop st sj = (False, sj')"
  shows "\<forall>j. sj_path_index sj < j \<and> j < length (sj_paths sj) \<longrightarrow>
           fragment st (sj_paths sj) j = []"
  using assms
proof (induction "length (sj_paths sj) - sj_path_index sj" arbitrary: sj rule: less_induct)
  case less
  let ?k = "Suc (sj_path_index sj)"
  let ?sj = "sj\<lparr>sj_path_index := ?k\<rparr>"
  show ?case
  proof (cases "path_at (sj_paths sj) ?k")
    case None
    then have "length (sj_paths sj) \<le> ?k" by (auto simp: path_at_def split: if_splits)
    then show ?thesis by auto
  next
    case (Some p)
    then have lt: "?k < length (sj_paths sj)" and pk: "p = sj_paths sj ! ?k"
      by (auto simp: path_at_def split: if_splits)
    obtain b seg where f: "get_first_segment_without_root st p 0 = (b, seg)" by fastforce
    have fr: "fragment st (sj_paths sj) ?k = segments_from st p 0"
      by (simp add: fragment_def pk)
    have nb: "\<not> b"
    proof
      assume b
      with less(2) Some f show False
        by (subst (asm) next_joined_loop.simps) (simp add: Let_def)
    qed
    with less(2) Some f have r: "next_joined_loop st (?sj\<lparr>sj_segment := seg\<rparr>) = (False, sj')"
      by (subst (asm) next_joined_loop.simps) (simp add: Let_def)
    from f nb have em: "fragment st (sj_paths sj) ?k = []"
      by (simp add: fr segments_from_Nil)
    have "length (sj_paths (?sj\<lparr>sj_segment := seg\<rparr>)) - sj_path_index (?sj\<lparr>sj_segment := seg\<rparr>)
            < length (sj_paths sj) - sj_path_index sj" using lt by simp
    from less(1)[OF this r]
    have rest: "\<And>j. ?k < j \<Longrightarrow> j < length (sj_paths sj) \<Longrightarrow> fragment st (sj_paths sj) j = []"
      by simp
    show ?thesis
    proof (intro allI impI)
      fix j assume "sj_path_index sj < j \<and> j < length (sj_paths sj)"
      then show "fragment st (sj_paths sj) j = []"
        using em rest[of j] by (cases "j = ?k") auto
    qed
  qed
qed

lemma joined_at_sel [simp]:
  "sj_segment (joined_at ps k s) = s" "sj_paths (joined_at ps k s) = ps"
  "sj_path_index (joined_at ps k s) = k"
  by (simp_all add: joined_at_def)

lemma sj_chain_True:
  "get_next_segment_joined st sj = (True, sj') \<Longrightarrow> sj_chain st sj = sj # sj_chain st sj'"
  by (subst sj_chain.simps) simp

lemma sj_chain_False:
  "get_next_segment_joined st sj = (False, sj') \<Longrightarrow> sj_chain st sj = [sj]"
  by (subst sj_chain.simps) simp

lemma sj_chain_flat:
  assumes "sj = joined_at ps k (fragment st ps k ! i)" "k < length ps"
    "i < length (fragment st ps k)"
  shows "sj_chain st sj =
           map (joined_at ps k) (drop i (fragment st ps k)) @ flat_from st ps (Suc k)"
  using assms
proof (induction sj arbitrary: k i rule: wf_induct_rule[OF wf_fwd_rel])
  case (1 sj)
  let ?F = "fragment st ps k"
  have pk: "path_at ps k \<noteq> None" using 1(3) by (simp add: path_at_def)
  have dr: "drop i ?F = ?F ! i # drop (Suc i) ?F"
    using 1(4) by (simp add: Cons_nth_drop_Suc)
  show ?case
  proof (cases "Suc i < length ?F")
    case True
    from fragment_next[OF True]
    have nx: "get_next_segment_joined st sj = (True, joined_at ps k (?F ! Suc i))"
      using pk by (simp add: get_next_segment_joined_def 1(2) joined_at_def)
    from nx have "(joined_at ps k (?F ! Suc i), sj) \<in> fwd_rel" by (rule next_joined_fwd_rel)
    from 1(1)[OF this refl 1(3) True] sj_chain_True[OF nx] dr
    show ?thesis by (simp add: 1(2))
  next
    case False
    with 1(4) have il: "i = length ?F - 1" and ne: "?F \<noteq> []" by auto
    have la: "?F ! i = last ?F" using ne by (subst il) (simp add: last_conv_nth)
    have d1: "drop (Suc i) ?F = []" using False by simp
    from fragment_last[OF ne] la
    have gn: "get_next_segment st (?F ! i) = (False, ?F ! i)" by simp
    have nj: "get_next_segment_joined st sj = next_joined_loop st sj"
      using pk gn by (auto simp: get_next_segment_joined_def 1(2) joined_at_def)
    obtain c sj' where r: "next_joined_loop st sj = (c, sj')" by fastforce
    show ?thesis
    proof (cases c)
      case True
      from r True have rT: "next_joined_loop st sj = (True, sj')" by simp
      from next_joined_loop_True[OF rT] obtain k' where
        k': "k < k'" "k' < length ps" "fragment st ps k' \<noteq> []"
        "\<And>j. k < j \<Longrightarrow> j < k' \<Longrightarrow> fragment st ps j = []"
        "sj' = joined_at ps k' (fragment st ps k' ! 0)"
        by (auto simp: 1(2) joined_at_def)
      from nj r True have nx: "get_next_segment_joined st sj = (True, sj')" by simp
      from nx have "(sj', sj) \<in> fwd_rel" by (rule next_joined_fwd_rel)
      from 1(1)[OF this k'(5) k'(2)] k'(3)
      have ch: "sj_chain st sj' =
          map (joined_at ps k') (fragment st ps k') @ flat_from st ps (Suc k')" by simp
      have "flat_from st ps (Suc k) = flat_from st ps k'"
        using k'(1,2,4) by (intro flat_from_skip) simp_all
      also have "\<dots> = sj_chain st sj'" using ch k'(2) by (simp add: flat_from_unfold)
      finally show ?thesis using sj_chain_True[OF nx] dr d1 by (simp add: 1(2))
    next
      case False
      from r False have rF: "next_joined_loop st sj = (False, sj')" by simp
      from next_joined_loop_False[OF rF]
      have em: "\<And>j. k < j \<Longrightarrow> j < length ps \<Longrightarrow> fragment st ps j = []"
        by (simp add: 1(2))
      have "flat_from st ps (Suc k) = flat_from st ps (length ps)"
        using 1(3) em by (intro flat_from_skip) simp_all
      then have fl: "flat_from st ps (Suc k) = []" by simp
      from nj r False have "get_next_segment_joined st sj = (False, sj')" by simp
      from sj_chain_False[OF this] dr d1 fl show ?thesis by (simp add: 1(2))
    qed
  qed
qed

lemma all_joined_flat:
  assumes "rootless_tail st ps"
  shows "all_joined st ps = flat_from st ps 0"
proof -
  obtain c sj where f: "get_first_segment_joined st ps uninitialized_sj = (c, sj)" by fastforce
  note sp = get_first_segment_joined_spec[OF assms, of uninitialized_sj, unfolded f]
  show ?thesis
  proof (cases c)
    case True
    let ?k = "sj_path_index sj"
    from sp True have ok: "joined_ok st ps sj"
      and em: "\<And>j. j < ?k \<Longrightarrow> fragment st ps j = []"
      and s0: "sj_segment sj = fragment st ps ?k ! 0" by simp_all
    from ok have k: "?k < length ps" and ne: "fragment st ps ?k \<noteq> []"
      and sj: "sj = joined_at ps ?k (fragment st ps ?k ! 0)"
      using s0 by (auto simp: joined_ok_def)
    from sj_chain_flat[OF sj k] ne
    have "sj_chain st sj = flat_from st ps ?k" using k by (simp add: flat_from_unfold)
    also have "\<dots> = flat_from st ps 0"
      using em k by (intro flat_from_skip[symmetric]) simp_all
    finally show ?thesis using f True by (simp add: all_joined_def)
  next
    case False
    with sp have "\<And>j. j < length ps \<Longrightarrow> fragment st ps j = []" by simp
    then have "flat_from st ps 0 = flat_from st ps (length ps)"
      by (intro flat_from_skip) simp_all
    with f False show ?thesis by (simp add: all_joined_def)
  qed
qed

lemma rootless_tail_single [simp]: "rootless_tail st [p]"
  by (simp add: rootless_tail_def)

lemma all_joined_single:
  "all_joined st [p] = map (joined_at [p] 0) (all_segments st p)"
  by (simp add: all_joined_flat flat_from_def fragment_def all_segments_def)

section \<open>The root of a string that starts with the root of a path\<close>

lemma skip_separators_ge: "c \<le> skip_separators st p c"
  by (induction st p c rule: skip_separators.induct) (subst skip_separators.simps, auto)

lemma skip_separators_eqI:
  assumes "c \<le> e"
    and "\<And>i. c \<le> i \<Longrightarrow> i < e \<Longrightarrow> is_separator st (char_at p i)"
    and "\<not> is_separator st (char_at p e)"
  shows "skip_separators st p c = e"
  using assms
proof (induction "e - c" arbitrary: c)
  case 0
  then have "c = e" by simp
  with 0(4) show ?case by (subst skip_separators.simps) simp
next
  case (Suc d)
  then have lt: "c < e" by simp
  then have "is_separator st (char_at p c)" using Suc(4)[of c] by simp
  then have "skip_separators st p c = skip_separators st p (c + 1)"
    by (subst skip_separators.simps) simp
  also have "\<dots> = e" using Suc(2,4,5) lt by (intro Suc(1)) simp_all
  finally show ?case .
qed

lemma skip_separators_inside:
  "c \<le> i \<Longrightarrow> i < skip_separators st p c \<Longrightarrow> is_separator st (char_at p i)"
proof (induction st p c rule: skip_separators.induct)
  case (1 st p c)
  show ?case
  proof (cases "is_separator st (char_at p c)")
    case True
    then have eq: "skip_separators st p c = skip_separators st p (c + 1)"
      by (subst skip_separators.simps) simp
    show ?thesis
    proof (cases "i = c")
      case True
      with \<open>is_separator st (char_at p c)\<close> show ?thesis by simp
    next
      case False
      with 1(2,3) eq 1(1)[OF True] show ?thesis by simp
    qed
  next
    case False
    then have "skip_separators st p c = c" by (subst skip_separators.simps) simp
    with 1(2,3) show ?thesis by simp
  qed
qed

lemma skip_separators_at: "\<not> is_separator st (char_at p (skip_separators st p c))"
proof (induction st p c rule: skip_separators.induct)
  case (1 st p c)
  show ?case
  proof (cases "is_separator st (char_at p c)")
    case True
    then have "skip_separators st p c = skip_separators st p (c + 1)"
      by (subst skip_separators.simps) simp
    with 1[OF True] show ?thesis by simp
  next
    case False
    then have "skip_separators st p c = c" by (subst skip_separators.simps) simp
    with False show ?thesis by simp
  qed
qed

lemma find_next_stop_agree:
  assumes "\<And>i. i \<le> m \<Longrightarrow> char_at q i = char_at p i" "find_next_stop st p c \<le> m"
  shows "find_next_stop st q c = find_next_stop st p c"
proof (rule find_next_stop_eqI)
  show "c \<le> find_next_stop st p c" by (rule find_next_stop_ge)
next
  fix i assume "c \<le> i" "i < find_next_stop st p c"
  with find_next_stop_inside[of c i st p] assms(1)[of i] assms(2)
  show "char_at q i \<noteq> NUL \<and> \<not> is_separator st (char_at q i)" by simp
next
  from find_next_stop_at[of p st c] assms(1)[OF assms(2)]
  show "char_at q (find_next_stop st p c) = NUL \<or>
        is_separator st (char_at q (find_next_stop st p c))" by simp
qed

lemma skip_separators_agree:
  assumes "\<And>i. i \<le> m \<Longrightarrow> char_at q i = char_at p i" "skip_separators st p c \<le> m"
  shows "skip_separators st q c = skip_separators st p c"
proof (rule skip_separators_eqI)
  show "c \<le> skip_separators st p c" by (rule skip_separators_ge)
next
  fix i assume "c \<le> i" "i < skip_separators st p c"
  with skip_separators_inside[of c i st p] assms(1)[of i] assms(2)
  show "is_separator st (char_at q i)" by simp
next
  from skip_separators_at[of st p c] assms(1)[OF assms(2)]
  show "\<not> is_separator st (char_at q (skip_separators st p c))" by simp
qed

text \<open>The branches of \<open>get_root_windows\<close>.\<close>

definition unc_tail :: "cwk_path_style \<Rightarrow> string \<Rightarrow> nat \<Rightarrow> nat" where
  "unc_tail st p c = find_next_stop st p (skip_separators st p (find_next_stop st p c))"

lemma unc_tail_ge: "c \<le> unc_tail st p c"
  unfolding unc_tail_def
  using find_next_stop_ge[of c st p] skip_separators_ge[of "find_next_stop st p c" st p]
    find_next_stop_ge[of "skip_separators st p (find_next_stop st p c)" st p]
  by linarith

lemma unc_tail_agree:
  assumes "\<And>i. i \<le> m \<Longrightarrow> char_at q i = char_at p i" "unc_tail st p c \<le> m"
  shows "unc_tail st q c = unc_tail st p c"
proof -
  let ?e1 = "find_next_stop st p c"
  let ?s = "skip_separators st p ?e1"
  have le: "?s \<le> m" "?e1 \<le> m"
    using assms(2) find_next_stop_ge[of ?s st p] skip_separators_ge[of ?e1 st p]
    by (simp_all add: unc_tail_def)
  have 1: "find_next_stop st q c = ?e1" using assms(1) le(2) by (rule find_next_stop_agree)
  have 2: "skip_separators st q ?e1 = ?s" using assms(1) le(1) by (rule skip_separators_agree)
  have 3: "find_next_stop st q ?s = find_next_stop st p ?s"
    using assms(1) assms(2)[unfolded unc_tail_def] by (rule find_next_stop_agree)
  show ?thesis by (simp add: unc_tail_def 1 2 3)
qed

lemma grw_empty: "char_at p 0 = NUL \<Longrightarrow> get_root_windows st p = 0"
  by (simp add: get_root_windows_def)

lemma grw_single:
  "is_separator st (char_at p 0) \<Longrightarrow> \<not> is_separator st (char_at p 1) \<Longrightarrow>
     get_root_windows st p = 1"
  using not_sep_NUL[of st] by (auto simp: get_root_windows_def)

lemma grw_device:
  "is_separator st (char_at p 0) \<Longrightarrow> is_separator st (char_at p 1) \<Longrightarrow>
   char_at p 2 = CHR ''?'' \<or> char_at p 2 = CHR ''.'' \<Longrightarrow> is_separator st (char_at p 3) \<Longrightarrow>
     get_root_windows st p = 4"
  using not_sep_NUL[of st] by (auto simp: get_root_windows_def)

lemma grw_unc:
  assumes "is_separator st (char_at p 0)" "is_separator st (char_at p 1)"
    "\<not> ((char_at p 2 = CHR ''?'' \<or> char_at p 2 = CHR ''.'') \<and> is_separator st (char_at p 3))"
  shows "get_root_windows st p =
     (let e = unc_tail st p (if char_at p 2 = CHR ''?'' \<or> char_at p 2 = CHR ''.'' then 3 else 2)
      in if is_separator st (char_at p e) then e + 1 else e)"
proof -
  have nn: "char_at p 0 \<noteq> NUL" using assms(1) not_sep_NUL[of st] by auto
  show ?thesis
    unfolding get_root_windows_def Let_def unc_tail_def
    using nn assms by (simp only: if_True if_False simp_thms split: if_splits) 
qed

lemma grw_drive:
  "char_at p 0 \<noteq> NUL \<Longrightarrow> \<not> is_separator st (char_at p 0) \<Longrightarrow> char_at p 1 = CHR '':'' \<Longrightarrow>
     get_root_windows st p = (if is_separator st (char_at p 2) then 3 else 2)"
  by (simp add: get_root_windows_def)

lemma grw_none:
  "\<not> is_separator st (char_at p 0) \<Longrightarrow> char_at p 1 \<noteq> CHR '':'' \<Longrightarrow>
     get_root_windows st p = 0"
  by (simp add: get_root_windows_def)

lemma get_root_windows_stable:
  assumes ag: "\<And>i. i < get_root_windows st p \<Longrightarrow> char_at q i = char_at p i"
    and nul: "char_at p (get_root_windows st p) = NUL \<Longrightarrow>
              char_at q (get_root_windows st p) = NUL"
    and ns: "\<not> is_separator st (char_at q (get_root_windows st p))"
    and nz: "get_root_windows st p \<noteq> 0"
  shows "get_root_windows st q = get_root_windows st p"
proof -
  let ?r = "get_root_windows st p"
  have p0: "char_at p 0 \<noteq> NUL" using nz grw_empty by metis
  have q0: "char_at q 0 = char_at p 0" using ag[of 0] nz by simp
  show ?thesis
  proof (cases "is_separator st (char_at p 0)")
    case s0: True
    show ?thesis
    proof (cases "is_separator st (char_at p 1)")
      case False
      then have r: "?r = 1" using s0 by (simp add: grw_single)
      from ns r have "\<not> is_separator st (char_at q 1)" by simp
      with s0 q0 r show ?thesis by (simp add: grw_single)
    next
      case s1: True
      let ?first = "char_at p 2 = CHR ''?'' \<or> char_at p 2 = CHR ''.''"
      show ?thesis
      proof (cases "?first \<and> is_separator st (char_at p 3)")
        case True
        then have r: "?r = 4" using s0 s1 by (simp add: grw_device)
        have "char_at q 1 = char_at p 1" "char_at q 2 = char_at p 2" "char_at q 3 = char_at p 3"
          using ag r by simp_all
        with True s0 s1 q0 r show ?thesis by (simp add: grw_device)
      next
        case nd: False
        let ?c = "if ?first then 3 else (2::nat)"
        let ?e = "unc_tail st p ?c"
        have r: "?r = (if is_separator st (char_at p ?e) then ?e + 1 else ?e)"
          using grw_unc[OF s0 s1 nd] by (simp add: Let_def)
        have ce: "?c \<le> ?e" by (rule unc_tail_ge)
        have agree: "char_at q i = char_at p i" if "i \<le> ?e" for i
        proof (cases "is_separator st (char_at p ?e)")
          case True
          with r that show ?thesis by (intro ag) simp
        next
          case False
          with r have re: "?r = ?e" by simp
          have "char_at p ?e = NUL"
            using find_next_stop_at[of p st] False unfolding unc_tail_def by blast
          with nul re have "char_at q ?e = NUL" by simp
          with \<open>char_at p ?e = NUL\<close> ag re that show ?thesis
            by (cases "i = ?e") simp_all
        qed
        have a1: "char_at q 1 = char_at p 1" and a2: "char_at q 2 = char_at p 2"
          using ce by (auto intro!: agree split: if_splits)
        have a3: "?first \<Longrightarrow> char_at q 3 = char_at p 3"
          using ce by (auto intro!: agree split: if_splits)
        have nd': "\<not> ((char_at q 2 = CHR ''?'' \<or> char_at q 2 = CHR ''.'') \<and>
                     is_separator st (char_at q 3))"
          using nd a2 a3 by auto
        have ut: "unc_tail st q ?c = ?e" by (rule unc_tail_agree[where m = "?e"], rule agree, assumption, rule order_refl)
        have "get_root_windows st q =
            (if is_separator st (char_at q ?e) then ?e + 1 else ?e)"
          using grw_unc[of st q, OF _ _ nd'] s0 s1 q0 a1 a2 ut by (simp add: Let_def)
        also have "\<dots> = ?r" using agree[of ?e] r by simp
        finally show ?thesis .
      qed
    qed
  next
    case n0: False
    have c1: "char_at p 1 = CHR '':''" using nz n0 grw_none by metis
    have r: "?r = (if is_separator st (char_at p 2) then 3 else 2)"
      using p0 n0 c1 by (rule grw_drive)
    have q1: "char_at q 1 = char_at p 1" using ag[of 1] r by (simp split: if_splits)
    have "is_separator st (char_at q 2) = is_separator st (char_at p 2)"
    proof (cases "is_separator st (char_at p 2)")
      case True
      with r ag[of 2] show ?thesis by simp
    next
      case False
      with r ns show ?thesis by simp
    qed
    with grw_drive[of q st] p0 n0 c1 q0 q1 r show ?thesis by simp
  qed
qed

lemma get_root_stable:
  assumes ag: "\<And>i. i < get_root st p \<Longrightarrow> char_at q i = char_at p i"
    and nul: "char_at p (get_root st p) = NUL \<Longrightarrow> char_at q (get_root st p) = NUL"
    and ns: "\<not> is_separator st (char_at q (get_root st p))"
    and nz: "st = CWK_STYLE_UNIX \<or> get_root st p \<noteq> 0"
  shows "get_root st q = get_root st p"
proof (cases st)
  case CWK_STYLE_WINDOWS
  with assms show ?thesis
    using get_root_windows_stable[of st p q] by (simp add: get_root_def)
next
  case CWK_STYLE_UNIX
  show ?thesis
  proof (cases "is_separator st (char_at p 0)")
    case True
    with CWK_STYLE_UNIX ag[of 0] show ?thesis by (simp add: get_root_def get_root_unix_def)
  next
    case False
    with CWK_STYLE_UNIX ns show ?thesis by (simp add: get_root_def get_root_unix_def)
  qed
qed

section \<open>The words that survive normalisation\<close>

text \<open>
  The positions of a stream of types that the resolver keeps, and the words at these
  positions in a stream of words.
\<close>

definition kept_idx :: "bool \<Rightarrow> cwk_segment_type list \<Rightarrow> nat list" where
  "kept_idx a T = filter (\<lambda>i. \<not> elided_at a T i) [0..<length T]"

definition kept_types :: "bool \<Rightarrow> cwk_segment_type list \<Rightarrow> cwk_segment_type list" where
  "kept_types a T = map (nth T) (kept_idx a T)"

definition kept_words :: "bool \<Rightarrow> string list \<Rightarrow> string list" where
  "kept_words a X = map (nth X) (kept_idx a (map text_type X))"

lemma filter_nth: "filter P xs = map (nth xs) (filter (\<lambda>i. P (xs ! i)) [0..<length xs])"
proof (induction xs rule: rev_induct)
  case Nil
  show ?case by simp
next
  case (snoc x xs)
  have 1: "filter (\<lambda>i. P ((xs @ [x]) ! i)) [0..<length xs] =
           filter (\<lambda>i. P (xs ! i)) [0..<length xs]"
    by (rule filter_cong) (simp_all add: nth_append)
  have 2: "map (nth (xs @ [x])) (filter (\<lambda>i. P (xs ! i)) [0..<length xs]) =
           map (nth xs) (filter (\<lambda>i. P (xs ! i)) [0..<length xs])"
    by (rule map_cong) (auto simp: nth_append)
  show ?case using snoc by (simp add: 1 2)
qed

lemma kept_idx_iff: "i \<in> set (kept_idx a T) \<longleftrightarrow> i < length T \<and> \<not> elided_at a T i"
  by (auto simp: kept_idx_def)

lemma kept_idx_sorted: "sorted_wrt (<) (kept_idx a T)"
  by (simp add: kept_idx_def sorted_wrt_filter)

lemma sj_type_text:
  assumes "rootless_tail st ps" "i < length (all_joined st ps)"
  shows "sj_type (all_joined st ps ! i) = text_type (sj_text (all_joined st ps ! i))"
  using joined_ok_wf(1)[OF all_joined_ok[OF assms]]
  by (simp add: sj_type_def sj_text_def get_segment_type_text)

lemma joined_types:
  "rootless_tail st ps \<Longrightarrow>
     map sj_type (all_joined st ps) = map text_type (map sj_text (all_joined st ps))"
  by (rule nth_equalityI) (simp_all add: sj_type_text)

lemma kept_from_words:
  assumes "rootless_tail st ps"
  shows "map sj_text (kept_from st a (all_joined st ps) 0) =
           kept_words a (map sj_text (all_joined st ps))"
proof -
  let ?J = "all_joined st ps"
  let ?T = "map text_type (map sj_text ?J)"
  have "kept_from st a ?J 0 =
      map (nth ?J) (filter (\<lambda>i. \<not> segment_will_be_removed st (?J ! i) a) [0..<length ?J])"
    unfolding kept_from_def drop_0 by (rule filter_nth)
  also have "filter (\<lambda>i. \<not> segment_will_be_removed st (?J ! i) a) [0..<length ?J] =
      filter (\<lambda>i. \<not> elided_at a ?T i) [0..<length ?J]"
    by (rule filter_cong) (simp_all add: removed_at[OF assms] joined_types[OF assms])
  finally have k: "kept_from st a ?J 0 = map (nth ?J) (kept_idx a ?T)"
    by (simp add: kept_idx_def)
  have "map sj_text (map (nth ?J) (kept_idx a ?T)) = map (nth (map sj_text ?J)) (kept_idx a ?T)"
    by (auto simp: kept_idx_def)
  with k show ?thesis by (simp add: kept_words_def)
qed

subsection \<open>What is kept is kept again\<close>

text \<open>
  The value the counter has after a walk, and the walks over a list in two parts. The
  counter is a word, so the facts hold for walks of any length.
\<close>

fun steps :: "cwk_segment_type list \<Rightarrow> c_int" where
  "steps [] = 0"
| "steps (t # ts) =
     (if t = CWK_NORMAL then 1 else if t = CWK_BACK then - 1 else 0) + steps ts"

lemma steps_append: "steps (xs @ ys) = steps xs + steps ys"
  by (induction xs) simp_all

lemma steps_rev: "steps (rev xs) = steps xs"
  by (induction xs) (simp_all add: steps_append)

lemma walk_forward_append:
  "walk_forward c (xs @ ys) \<longleftrightarrow> walk_forward c xs \<or> walk_forward (c + steps xs) ys"
  by (induction xs arbitrary: c) (simp_all add: algebra_simps)

lemma walk_back_append:
  "walk_back c (xs @ ys) \<longleftrightarrow> walk_back c xs \<or> walk_back (c + steps xs) ys"
  by (induction xs arbitrary: c) (simp_all add: algebra_simps)

lemma walk_back_no_normal: "CWK_NORMAL \<notin> set ts \<Longrightarrow> \<not> walk_back c ts"
  by (induction ts arbitrary: c) auto

lemma walk_forward_no_back: "CWK_BACK \<notin> set ts \<Longrightarrow> \<not> walk_forward c ts"
  by (induction ts arbitrary: c) auto

text \<open>
  No stretch of segments lets both a Normal segment in front of it survive a Back segment
  behind it and that Back segment survive the Normal segment, wrapped counter or not.
\<close>

lemma extreme_counter:
  fixes d :: c_int
  assumes "0 \<le> sint (d - 1)" "sint (d + 1) \<le> 0"
  shows "d = 0x7FFFFFFF \<or> d = 0x80000000"
proof -
  have r: "- (2 ^ 31) \<le> sint d" "sint d < 2 ^ 31" using sint_ge[of d] sint_lt[of d] by simp_all
  have "sint d = - (2 ^ 31) \<or> sint d = 2 ^ 31 - 1"
  proof (rule ccontr)
    assume "\<not> (sint d = - (2 ^ 31) \<or> sint d = 2 ^ 31 - 1)"
    with r have "- (2 ^ 31) < sint d" "sint d < 2 ^ 31 - 1" by simp_all
    from sint_pred[OF this(1)] sint_succ[OF this(2)] assms show False by simp
  qed
  then have "sint d = sint (0x80000000 :: c_int) \<or> sint d = sint (0x7FFFFFFF :: c_int)"
    by simp
  then show ?thesis using signed_word_eqI[of d] by blast
qed

lemma no_stretch_between:
  assumes nf: "\<not> walk_forward 0 U" and nb: "\<not> walk_back 0 (rev U)"
    and a: "0 \<le> sint (steps U - 1)" and b: "sint (steps U + 1) \<le> 0"
  shows False
proof -
  from extreme_counter[OF a b] have d: "steps U = 0x7FFFFFFF \<or> steps U = 0x80000000" .
  have inv: "steps V = 0 \<or> (steps U = 0x80000000 \<and> steps V = 1)" if "U = V @ V'" for V V'
    using that
  proof (induction V arbitrary: V' rule: rev_induct)
    case Nil
    show ?case by simp
  next
    case (snoc t V)
    from snoc(2) have U: "U = V @ t # V'" by simp
    note ih = snoc(1)[OF U]
    show ?case
    proof (cases t)
      case CWK_CURRENT
      with ih show ?thesis by (simp add: steps_append)
    next
      case CWK_BACK
      from nf have nn: "\<not> sint (steps V - 1) < 0"
        unfolding U CWK_BACK by (simp add: walk_forward_append)
      have "steps V \<noteq> 0"
      proof
        assume "steps V = 0"
        with nn show False by simp
      qed
      with ih have "steps U = 0x80000000 \<and> steps V = 1" by auto
      with CWK_BACK show ?thesis by (simp add: steps_append)
    next
      case CWK_NORMAL
      have su: "steps V' + 1 = steps U - steps V"
        unfolding U CWK_NORMAL by (simp add: steps_append)
      from nb have "\<not> 0 < sint (steps V' + 1)"
        unfolding U CWK_NORMAL by (simp add: walk_back_append steps_rev)
      then have c: "\<not> 0 < sint (steps U - steps V)" by (simp add: su)
      have "steps U = 0x80000000 \<and> steps V = 0"
      proof (rule ccontr)
        assume n: "\<not> (steps U = 0x80000000 \<and> steps V = 0)"
        from ih d n consider "steps U = 0x7FFFFFFF" "steps V = 0"
          | "steps U = 0x80000000" "steps V = 1" by auto
        then show False
        proof cases
          case 1
          with c show False by simp
        next
          case 2
          with c show False by simp
        qed
      qed
      with CWK_NORMAL show ?thesis by (simp add: steps_append)
    qed
  qed
  from inv[of U "[]"] d show False by auto
qed

lemma normal_then_back:
  assumes "i < j" "j < length T" "T ! i = CWK_NORMAL" "T ! j = CWK_BACK"
    "\<not> walk_forward 0 (drop (Suc i) T)"
  shows "walk_back 0 (rev (take j T))"
proof (rule ccontr)
  assume nb: "\<not> walk_back 0 (rev (take j T))"
  define U where "U = take (j - Suc i) (drop (Suc i) T)"
  define A where "A = drop (Suc i) T"
  define B where "B = rev (take j T)"
  have il: "i < length T" using assms by simp
  have "A = U @ drop (j - Suc i) (drop (Suc i) T)"
    unfolding A_def U_def by (rule append_take_drop_id[symmetric])
  also have "drop (j - Suc i) (drop (Suc i) T) = drop j T" using assms(1) by simp
  also have "drop j T = CWK_BACK # drop (Suc j) T"
    using Cons_nth_drop_Suc[OF assms(2)] assms(4) by simp
  finally have after: "A = U @ CWK_BACK # drop (Suc j) T" .
  have "take j T = take (Suc i + (j - Suc i)) T" using assms(1) by simp
  also have "\<dots> = take (Suc i) T @ U" unfolding U_def by (rule take_add)
  also have "take (Suc i) T = take i T @ [CWK_NORMAL]"
    using take_Suc_conv_app_nth[OF il] assms(3) by simp
  finally have before: "B = rev U @ CWK_NORMAL # rev (take i T)" by (simp add: B_def)
  from assms(5) have "\<not> walk_forward 0 A" by (simp add: A_def)
  then have f: "\<not> walk_forward 0 U" "\<not> sint (steps U - 1) < 0"
    unfolding after by (simp_all add: walk_forward_append)
  from nb have "\<not> walk_back 0 B" by (simp add: B_def)
  then have k: "\<not> walk_back 0 (rev U)" "\<not> 0 < sint (steps U + 1)"
    unfolding before by (simp_all add: walk_back_append steps_rev)
  from no_stretch_between[OF f(1) k(1)] f(2) k(2) show False by simp
qed

lemma kept_types_stable:
  "kept_idx a (kept_types a T) = [0..<length (kept_types a T)]"
proof -
  let ?K = "kept_idx a T"
  let ?kt = "kept_types a T"
  have len: "length ?kt = length ?K" by (simp add: kept_types_def)
  have at: "?K ! m < length T \<and> \<not> elided_at a T (?K ! m) \<and> ?kt ! m = T ! (?K ! m)"
    if "m < length ?K" for m
    using that kept_idx_iff[of "?K ! m" a T] by (simp add: kept_types_def)
  have mono: "?K ! m < ?K ! m'" if "m < m'" "m' < length ?K" for m m'
    using sorted_wrt_nth_less[OF kept_idx_sorted that] .
  have "\<not> elided_at a ?kt m" if m: "m < length ?K" for m
  proof -
    let ?i = "?K ! m"
    note i = at[OF m]
    show ?thesis
    proof (cases "T ! ?i")
      case CWK_CURRENT
      with i show ?thesis by (simp add: elided_at_def)
    next
      case CWK_BACK
      with i have na: "\<not> a" and nb: "\<not> walk_back 0 (rev (take ?i T))"
        by (auto simp: elided_at_def)
      have "CWK_NORMAL \<notin> set (take m ?kt)"
      proof
        assume "CWK_NORMAL \<in> set (take m ?kt)"
        then obtain m' where m': "m' < m" "?kt ! m' = CWK_NORMAL"
          using m len by (auto simp: in_set_conv_nth)
        from m' m have l': "m' < length ?K" by simp
        note i' = at[OF l']
        from i' m'(2) have "\<not> walk_forward 0 (drop (Suc (?K ! m')) T)" "T ! (?K ! m') = CWK_NORMAL"
          by (auto simp: elided_at_def)
        from normal_then_back[OF mono[OF m'(1) m] _ this(2) CWK_BACK this(1)] i nb
        show False by simp
      qed
      then have "CWK_NORMAL \<notin> set (rev (take m ?kt))" by simp
      from walk_back_no_normal[OF this]
      have "\<not> walk_back 0 (rev (take m ?kt))" .
      with na CWK_BACK i show ?thesis by (simp add: elided_at_def)
    next
      case CWK_NORMAL
      with i have ns: "\<not> walk_forward 0 (drop (Suc ?i) T)"
        by (auto simp: elided_at_def)
      have "CWK_BACK \<notin> set (drop (Suc m) ?kt)"
      proof
        assume "CWK_BACK \<in> set (drop (Suc m) ?kt)"
        then obtain d where d0: "d < length (drop (Suc m) ?kt)" "drop (Suc m) ?kt ! d = CWK_BACK"
          unfolding in_set_conv_nth by blast
        then have d: "Suc m + d < length ?kt" "?kt ! (Suc m + d) = CWK_BACK"
          by simp_all
        let ?m' = "Suc m + d"
        from d len have l': "?m' < length ?K" by simp
        note i' = at[OF l']
        from i' d(2) have nb: "\<not> walk_back 0 (rev (take (?K ! ?m') T))"
          and bk: "T ! (?K ! ?m') = CWK_BACK"
          by (auto simp: elided_at_def)
        have "m < ?m'" by simp
        from normal_then_back[OF mono[OF this l'] _ CWK_NORMAL bk ns] i' nb
        show False by simp
      qed
      from walk_forward_no_back[OF this]
      have "\<not> walk_forward 0 (drop (Suc m) ?kt)" .
      with CWK_NORMAL i show ?thesis by (simp add: elided_at_def)
    qed
  qed
  then show ?thesis
    unfolding kept_idx_def[of a ?kt] using len by (simp add: filter_id_conv)
qed

lemma kept_words_types: "map text_type (kept_words a X) = kept_types a (map text_type X)"
  by (auto simp: kept_words_def kept_types_def kept_idx_def)

lemma kept_words_idem: "kept_words a (kept_words a X) = kept_words a X"
proof -
  let ?W = "kept_words a X"
  have "length (kept_types a (map text_type X)) = length ?W"
    by (simp add: kept_types_def kept_words_def)
  then have "kept_idx a (map text_type ?W) = [0..<length ?W]"
    using kept_types_stable[of a "map text_type X"] by (simp add: kept_words_types)
  then have "kept_words a ?W = map (nth ?W) [0..<length ?W]"
    unfolding kept_words_def[of a ?W] by simp
  then show ?thesis by (simp add: map_nth)
qed

lemma kept_words_subset: "set (kept_words a X) \<subseteq> set X"
  by (auto simp: kept_words_def kept_idx_def)

lemma kept_words_absolute:
  assumes "w \<in> set (kept_words True X)"
  shows "text_type w = CWK_NORMAL"
proof -
  from assms obtain i where i: "i < length X" "\<not> elided_at True (map text_type X) i" "w = X ! i"
    by (auto simp: kept_words_def kept_idx_def)
  then show ?thesis
    by (cases "text_type (X ! i)") (auto simp: elided_at_def)
qed

subsection \<open>The string that \<open>normalize\<close> produces\<close>

definition words :: "cwk_path_style \<Rightarrow> string \<Rightarrow> string list" where
  "words st p = map seg_text (all_segments st p)"

lemma words_word_ok: "w \<in> set (words st p) \<Longrightarrow> word_ok st w"
  by (auto simp: words_def all_segments_def dest!: segments_from_props intro: seg_text_word_ok)

lemma joined_words_single: "map sj_text (all_joined st [p]) = words st p"
  by (simp add: all_joined_single words_def sj_text_def comp_def)

lemma joined_string_single:
  "joined_string st [p] =
     (let r = get_root st p; W = kept_words (is_root_absolute st p r) (words st p)
      in if words st p \<noteq> [] \<and> W = [] \<and> r = 0 then ''.''
         else take r p @ join_words (first_separator st) False W)"
proof -
  have "all_joined st [p] \<noteq> [] \<longleftrightarrow> words st p \<noteq> []"
    using joined_words_single[of st p] by (metis map_is_Nil_conv)
  then show ?thesis
    unfolding joined_string_def Let_def
    by (simp only: kept_from_words[OF rootless_tail_single] joined_words_single nth_Cons_0)
qed

section \<open>The result of \<open>normalize\<close> as a string\<close>

lemma jnm_returns:
  assumes rt: "rootless_tail st ps"
    and r: "join_and_normalize_multiple st ps b n = (b', len)" and fits: "len < n"
  shows "len = length (joined_string st ps)" "map b' [0..<len] = joined_string st ps"
    "b' len = NUL"
proof -
  let ?s = "joined_string st ps"
  from jnm_result[OF rt, of "Suc (length ?s)" b] obtain b2 where
    "join_and_normalize_multiple st ps b (Suc (length ?s)) = (b2, length ?s)" by auto
  with jnm_snd[of st ps b n b "Suc (length ?s)"] r show len: "len = length ?s" by simp
  from jnm_result[OF rt, of n b] fits len r have h: "holds_string b' ?s" by auto
  then show "b' len = NUL" by (simp add: holds_string_def len)
  from h show "map b' [0..<len] = ?s"
    unfolding len by (intro nth_equalityI) (simp_all add: holds_string_def)
qed

lemma normalize_returns:
  assumes "normalize st p b n = (b', len)" "len < n"
  shows "len = length (joined_string st [p])" "map b' [0..<len] = joined_string st [p]"
    "b' len = NUL"
  using jnm_returns[OF rootless_tail_single assms(1)[unfolded normalize_def] assms(2)]
  by simp_all

subsection \<open>The root of the result\<close>

lemma no_segments_at_end: "char_at p (get_root st p) = NUL \<Longrightarrow> words st p = []"
  by (simp add: words_def all_segments_def segments_from_def
      get_first_segment_without_root_def)

lemma join_words_first:
  assumes "\<forall>w\<in>set W. word_ok st w"
  shows "\<not> is_separator st (char_at (join_words (first_separator st) False W) 0)"
proof (cases W)
  case Nil
  then show ?thesis by simp
next
  case (Cons w ws)
  with assms have "word_ok st w" by simp
  from word_first_char(2)[OF this, of "[]"] Cons show ?thesis by simp
qed

lemma root_min [simp]: "min (length p) (get_root st p) = get_root st p"
  using get_root_le[of st p] by simp

lemma char_at_root_prefix:
  assumes "i < get_root st p"
  shows "char_at (take (get_root st p) p @ Y) i = char_at p i"
proof -
  have "i < length p" using assms get_root_le[of st p] by simp
  with assms show ?thesis by (simp add: char_at_def nth_append)
qed

lemma length_root_prefix [simp]: "length (take (get_root st p) p) = get_root st p"
  using get_root_le[of st p] by simp

lemma result_root:
  assumes ok: "\<forall>w\<in>set W. word_ok st w"
    and nz: "st = CWK_STYLE_UNIX \<or> get_root st p \<noteq> 0"
    and e: "words st p = [] \<Longrightarrow> W = []"
  shows "get_root st (take (get_root st p) p @ join_words (first_separator st) False W) =
           get_root st p"
proof (rule get_root_stable)
  let ?r = "get_root st p"
  let ?Y = "join_words (first_separator st) False W"
  fix i assume "i < ?r"
  then show "char_at (take ?r p @ ?Y) i = char_at p i" by (rule char_at_root_prefix)
next
  let ?r = "get_root st p"
  let ?Y = "join_words (first_separator st) False W"
  assume "char_at p ?r = NUL"
  then have "W = []" by (intro e no_segments_at_end)
  then show "char_at (take ?r p @ ?Y) ?r = NUL" by simp
next
  let ?r = "get_root st p"
  let ?Y = "join_words (first_separator st) False W"
  have "char_at (take ?r p @ ?Y) ?r = char_at ?Y 0"
    using char_at_append_right[of "take ?r p" ?Y 0] by simp
  with join_words_first[OF ok] show "\<not> is_separator st (char_at (take ?r p @ ?Y) ?r)" by simp
next
  show "st = CWK_STYLE_UNIX \<or> get_root st p \<noteq> 0" by (rule nz)
qed

lemma result_words:
  assumes ok: "\<forall>w\<in>set W. word_ok st w"
    and rs: "get_root st (take (get_root st p) p @ join_words (first_separator st) False W) =
               get_root st p"
  shows "words st (take (get_root st p) p @ join_words (first_separator st) False W) = W"
  using segments_from_words[OF ok, of "take (get_root st p) p"]
  by (simp add: words_def all_segments_def rs)

lemma kept_words_ok: "w \<in> set (kept_words a (words st p)) \<Longrightarrow> word_ok st w"
  using kept_words_subset[of a "words st p"] words_word_ok[of w st p] by auto

lemma kept_words_Nil [simp]: "kept_words a [] = []"
  by (simp add: kept_words_def kept_idx_def)

subsection \<open>Characters of the result\<close>

lemma first_separator_not_NUL [simp]:
  "first_separator st \<noteq> NUL" "NUL \<noteq> first_separator st"
  using not_sep_NUL[of st] first_separator_is_separator[of st] by metis+

lemma join_words_no_NUL:
  "\<forall>w\<in>set W. word_ok st w \<Longrightarrow> NUL \<notin> set (join_words (first_separator st) h W)"
proof (induction W arbitrary: h)
  case Nil
  show ?case by simp
next
  case (Cons w W)
  then have "NUL \<notin> set w" "NUL \<notin> set (join_words (first_separator st) True W)"
    by (auto simp: word_ok_def)
  then show ?case by auto
qed

text \<open>Two consecutive separators somewhere in a string.\<close>

fun double_separator :: "cwk_path_style \<Rightarrow> string \<Rightarrow> bool" where
  "double_separator st (a # b # cs) =
     ((is_separator st a \<and> is_separator st b) \<or> double_separator st (b # cs))"
| "double_separator st cs = False"

lemma double_separator_Cons:
  "double_separator st (a # cs) =
     ((is_separator st a \<and> cs \<noteq> [] \<and> is_separator st (hd cs)) \<or> double_separator st cs)"
  by (cases cs) auto

lemma double_separator_append:
  "double_separator st (xs @ ys) \<longleftrightarrow>
     double_separator st xs \<or> double_separator st ys \<or>
     (xs \<noteq> [] \<and> ys \<noteq> [] \<and> is_separator st (last xs) \<and> is_separator st (hd ys))"
proof (induction xs)
  case Nil
  show ?case by simp
next
  case (Cons a xs)
  show ?case
    unfolding append_Cons double_separator_Cons[of st a] Cons
    by (cases xs; cases ys) auto
qed

lemma word_no_double: "word_ok st w \<Longrightarrow> \<not> double_separator st w"
proof (induction w)
  case Nil
  show ?case by simp
next
  case (Cons a w)
  then show ?case by (cases w) (auto simp: word_ok_def)
qed

lemma word_ends:
  assumes "word_ok st w"
  shows "w \<noteq> []" "\<not> is_separator st (hd w)" "\<not> is_separator st (last w)"
  using assms by (auto simp: word_ok_def)

lemma join_words_no_double:
  "\<forall>w\<in>set W. word_ok st w \<Longrightarrow> \<not> double_separator st (join_words (first_separator st) h W)"
proof (induction W arbitrary: h)
  case Nil
  show ?case by simp
next
  case (Cons w W)
  then have w: "word_ok st w" and ih: "\<not> double_separator st (join_words (first_separator st) True W)"
    by simp_all
  note e = word_ends[OF w]
  have tl: "\<not> double_separator st (w @ join_words (first_separator st) True W)"
    using ih e word_no_double[OF w] by (simp add: double_separator_append)
  show ?case
  proof (cases h)
    case True
    have "hd (w @ join_words (first_separator st) True W) = hd w" using e by simp
    with tl e True show ?thesis by (simp add: double_separator_Cons)
  next
    case False
    with tl show ?thesis by simp
  qed
qed

lemma join_words_hd:
  assumes "\<forall>w\<in>set W. word_ok st w" "W \<noteq> []"
  shows "join_words (first_separator st) False W \<noteq> []"
    "\<not> is_separator st (hd (join_words (first_separator st) False W))"
  using assms by (cases W; auto simp: word_ok_def)+

lemma short_no_double: "length xs \<le> 1 \<Longrightarrow> \<not> double_separator st xs"
  by (cases xs) (auto simp: double_separator_Cons)

lemma root_tail_no_double:
  assumes ok: "\<forall>w\<in>set W. word_ok st w"
  shows "\<not> double_separator st
           (drop (get_root st p - 1)
              (take (get_root st p) p @ join_words (first_separator st) False W))"
proof -
  let ?r = "get_root st p"
  let ?Y = "join_words (first_separator st) False W"
  let ?R = "drop (?r - 1) (take ?r p)"
  have d: "drop (?r - 1) (take ?r p @ ?Y) = ?R @ ?Y" by simp
  have l: "length ?R \<le> 1" by simp
  then have nR: "\<not> double_separator st ?R" by (rule short_no_double)
  have nY: "\<not> double_separator st ?Y" using ok by (rule join_words_no_double)
  have "?Y \<noteq> [] \<Longrightarrow> \<not> is_separator st (hd ?Y)"
    using join_words_hd[OF ok] by (cases W) auto
  with nR nY show ?thesis unfolding d by (auto simp: double_separator_append)
qed

section \<open>Normalised absolute paths\<close>

text \<open>
  Claim C10, amended. For every style and every null-terminated absolute path \<open>p\<close>, the
  string that \<open>normalize\<close> writes into a buffer that holds it is terminated, every segment
  the iterator yields on it is a Normal segment (no \<open>.\<close> and no \<open>..\<close> segment), and
  from the last character of its root on no two separators stand next to each other. The
  root itself is copied from the input as it is, so separators may repeat inside it.
\<close>

theorem normalized_absolute_is_dot_free:
  assumes cs: "c_string p" and ab: "is_absolute st p"
    and r: "normalize st p b n = (b', len)" and fits: "len < n"
  shows "b' len = NUL \<and> c_string (map b' [0..<len]) \<and>
         (\<forall>s\<in>set (all_segments st (map b' [0..<len])). get_segment_type s = CWK_NORMAL) \<and>
         \<not> double_separator st
             (drop (get_root st (map b' [0..<len]) - 1) (map b' [0..<len]))"
proof -
  let ?r = "get_root st p"
  from ab have a: "is_root_absolute st p ?r" and nz: "?r \<noteq> 0"
    by (auto simp: is_absolute_def is_root_absolute_def split: if_splits)
  define W where "W = kept_words True (words st p)"
  let ?out = "take ?r p @ join_words (first_separator st) False W"
  note nr = normalize_returns[OF r fits]
  have out: "map b' [0..<len] = ?out"
    using nr(2) a nz by (simp add: joined_string_single Let_def W_def)
  have ok: "\<forall>w\<in>set W. word_ok st w" unfolding W_def using kept_words_ok by blast
  have rs: "get_root st ?out = ?r" using ok nz by (intro result_root) (simp_all add: W_def)
  have ws: "words st ?out = W" using ok rs by (rule result_words)
  have seg: "get_segment_type s = CWK_NORMAL" if s: "s \<in> set (all_segments st ?out)" for s
  proof -
    from s have wf: "segment_wf st s"
      by (auto simp: all_segments_def dest: segments_from_props)
    from s have "seg_text s \<in> set (words st ?out)" unfolding words_def by simp
    then have "seg_text s \<in> set (kept_words True (words st p))" by (simp only: ws) (simp only: W_def)
    then have "text_type (seg_text s) = CWK_NORMAL" by (rule kept_words_absolute)
    with get_segment_type_text[OF wf] show ?thesis by simp
  qed
  have "NUL \<notin> set (take ?r p)" using cs by (auto simp: c_string_def dest: in_set_takeD)
  with join_words_no_NUL[OF ok] have nn: "c_string ?out" by (simp add: c_string_def)
  have nd: "\<not> double_separator st (drop (?r - 1) ?out)" using ok by (rule root_tail_no_double)
  show ?thesis unfolding out using nr(3) seg nn nd rs by simp
qed

theorem normalized_absolute_is_dot_free_witness:
  "c_string ''/a/../b/./c'' \<and> is_absolute CWK_STYLE_UNIX ''/a/../b/./c'' \<and>
   snd (normalize CWK_STYLE_UNIX ''/a/../b/./c'' (\<lambda>_. CHR ''#'') 8) = 4 \<and>
   map (fst (normalize CWK_STYLE_UNIX ''/a/../b/./c'' (\<lambda>_. CHR ''#'') 8)) [0..<4] = ''/b/c'' \<and>
   fst (normalize CWK_STYLE_UNIX ''/a/../b/./c'' (\<lambda>_. CHR ''#'') 8) 4 = NUL \<and>
   map get_segment_type (all_segments CWK_STYLE_UNIX ''/b/c'') = [CWK_NORMAL, CWK_NORMAL] \<and>
   \<not> double_separator CWK_STYLE_UNIX ''/b/c''"
proof -
  let ?p = "''/a/../b/./c''"
  let ?res = "normalize CWK_STYLE_UNIX ?p (\<lambda>_. CHR ''#'') 8"
  have cs: "c_string ?p" by code_simp
  have ab: "is_absolute CWK_STYLE_UNIX ?p" by code_simp
  have len: "snd ?res = 4" by code_simp
  have out: "map (fst ?res) [0..<4] = ''/b/c''" by code_simp
  have ty: "map get_segment_type (all_segments CWK_STYLE_UNIX ''/b/c'') =
      [CWK_NORMAL, CWK_NORMAL]" by code_simp
  have nd: "\<not> double_separator CWK_STYLE_UNIX ''/b/c''" by code_simp
  have r: "?res = (fst ?res, snd ?res)" by simp
  have fits: "snd ?res < 8" by (simp add: len)
  from normalized_absolute_is_dot_free[OF cs ab r fits]
  have "fst ?res 4 = NUL" by (simp add: len)
  with cs ab len out ty nd show ?thesis by simp
qed

text \<open>
  The claim as stated fails on Windows paths with a UNC root: the root
  \<open>//server/share/\<close> is copied unchanged, with its two leading separators.
\<close>

theorem unc_root_keeps_double_separator:
  "is_absolute CWK_STYLE_WINDOWS ''//server/share/x'' \<and>
   snd (normalize CWK_STYLE_WINDOWS ''//server/share/x'' (\<lambda>_. CHR ''#'') 32) = 16 \<and>
   map (fst (normalize CWK_STYLE_WINDOWS ''//server/share/x'' (\<lambda>_. CHR ''#'') 32)) [0..<16] =
     ''//server/share/x'' \<and>
   double_separator CWK_STYLE_WINDOWS ''//server/share/x''"
proof (intro conjI)
  show "is_absolute CWK_STYLE_WINDOWS ''//server/share/x''" by code_simp
  show "snd (normalize CWK_STYLE_WINDOWS ''//server/share/x'' (\<lambda>_. CHR ''#'') 32) = 16"
    by code_simp
  show "map (fst (normalize CWK_STYLE_WINDOWS ''//server/share/x'' (\<lambda>_. CHR ''#'') 32)) [0..<16] =
     ''//server/share/x''" by code_simp
  show "double_separator CWK_STYLE_WINDOWS ''//server/share/x''" by code_simp
qed

section \<open>Normalising twice\<close>

lemma joined_string_dot: "joined_string st [''.''] = ''.''"
proof -
  have r: "get_root st ''.'' = 0"
    by (cases st) (simp_all add: get_root_def get_root_unix_def get_root_windows_def
        char_at_def is_separator_def NUL_def BACKSLASH_def)
  have "word_ok st ''.''"
    by (cases st) (simp_all add: word_ok_def is_separator_def NUL_def BACKSLASH_def)
  then have "map seg_text (segments_from st ([] @ join_words (first_separator st) False [''.'']) (length ([]::string))) = [''.'']"
    by (intro segments_from_words) simp
  then have w: "words st ''.'' = [''.'']" by (simp add: words_def all_segments_def r)
  have "kept_words False [''.''] = []"
    by (simp add: kept_words_def kept_idx_def elided_at_def text_type_def)
  with w r show ?thesis
    by (simp add: joined_string_single Let_def is_root_absolute_def)
qed

lemma joined_string_idem:
  assumes root: "st = CWK_STYLE_UNIX \<or> get_root st p \<noteq> 0 \<or>
                 get_root st (joined_string st [p]) = 0"
  shows "joined_string st [joined_string st [p]] = joined_string st [p]"
proof -
  let ?r = "get_root st p"
  let ?a = "is_root_absolute st p ?r"
  define W where "W = kept_words ?a (words st p)"
  let ?out = "take ?r p @ join_words (first_separator st) False W"
  show ?thesis
  proof (cases "words st p \<noteq> [] \<and> W = [] \<and> ?r = 0")
    case True
    then have "joined_string st [p] = ''.''"
      unfolding joined_string_single[of st p] Let_def W_def[symmetric] by (rule if_P)
    then show ?thesis by (simp add: joined_string_dot)
  next
    case False
    then have out: "joined_string st [p] = ?out"
      unfolding joined_string_single[of st p] Let_def W_def[symmetric] by (rule if_not_P)
    have ok: "\<forall>w\<in>set W. word_ok st w" unfolding W_def using kept_words_ok by blast
    have e: "words st p = [] \<Longrightarrow> W = []" by (simp add: W_def)
    have rs: "get_root st ?out = ?r"
    proof (cases "st = CWK_STYLE_UNIX \<or> ?r \<noteq> 0")
      case True
      with ok e show ?thesis by (intro result_root)
    next
      case False
      with root out show ?thesis by simp
    qed
    have ws: "words st ?out = W" using ok rs by (rule result_words)
    have a: "is_root_absolute st ?out ?r = ?a"
    proof (cases "?r = 0")
      case True
      then show ?thesis by (simp add: is_root_absolute_def)
    next
      case False
      then have "char_at ?out (?r - 1) = char_at p (?r - 1)"
        by (intro char_at_root_prefix) simp
      then show ?thesis by (simp add: is_root_absolute_def)
    qed
    have kw: "kept_words ?a W = W" unfolding W_def by (rule kept_words_idem)
    have tk: "take ?r ?out = take ?r p" by simp
    have "joined_string st [?out] = ?out"
      unfolding joined_string_single[of st ?out] Let_def rs ws a kw tk by simp
    with out show ?thesis by simp
  qed
qed

text \<open>
  Claim C2, amended. \<open>normalize\<close> is idempotent in Unix style, and in Windows style
  whenever the input has a root or the result has none: for such a path \<open>p\<close>, if
  \<open>normalize\<close> returns \<open>len\<close> into a buffer that holds the result, then \<open>normalize\<close> of
  that result returns \<open>len\<close> again and writes the same string into any buffer that
  holds it.
\<close>

theorem normalize_idempotent_when_root_is_kept:
  assumes r1: "normalize st p b n = (b1, len)" and fits1: "len < n"
    and root: "st = CWK_STYLE_UNIX \<or> get_root st p \<noteq> 0 \<or>
               get_root st (map b1 [0..<len]) = 0"
    and fits2: "len < m"
  shows "snd (normalize st (map b1 [0..<len]) c m) = len \<and>
         map (fst (normalize st (map b1 [0..<len]) c m)) [0..<len] = map b1 [0..<len] \<and>
         fst (normalize st (map b1 [0..<len]) c m) len = NUL"
proof -
  let ?s = "joined_string st [p]"
  note n1 = normalize_returns[OF r1 fits1]
  have idem: "joined_string st [?s] = ?s"
    using root unfolding n1(2) by (rule joined_string_idem)
  have fits: "length (joined_string st [?s]) < m" using fits2 n1(1) idem by simp
  from jnm_result[OF rootless_tail_single fits, of c] obtain b2 where
    r2: "normalize st ?s c m = (b2, length (joined_string st [?s]))"
    by (auto simp: normalize_def)
  have l2: "length (joined_string st [?s]) < m" by (rule fits)
  note n2 = normalize_returns[OF r2 l2]
  show ?thesis unfolding n1(2) r2 using n1(1) n2 idem by simp
qed

theorem normalize_idempotent_when_root_is_kept_witness:
  "snd (normalize CWK_STYLE_UNIX ''a/./b/../c'' (\<lambda>_. CHR ''#'') 8) = 3 \<and>
   map (fst (normalize CWK_STYLE_UNIX ''a/./b/../c'' (\<lambda>_. CHR ''#'') 8)) [0..<3] = ''a/c'' \<and>
   snd (normalize CWK_STYLE_UNIX ''a/c'' (\<lambda>_. CHR ''+'') 4) = 3 \<and>
   map (fst (normalize CWK_STYLE_UNIX ''a/c'' (\<lambda>_. CHR ''+'') 4)) [0..<3] = ''a/c'' \<and>
   fst (normalize CWK_STYLE_UNIX ''a/c'' (\<lambda>_. CHR ''+'') 4) 3 = NUL"
proof -
  let ?res = "normalize CWK_STYLE_UNIX ''a/./b/../c'' (\<lambda>_. CHR ''#'') 8"
  have len: "snd ?res = 3" by code_simp
  have out: "map (fst ?res) [0..<3] = ''a/c''" by code_simp
  have r: "?res = (fst ?res, 3)" using len by (metis prod.collapse)
  have f1: "(3::nat) < 8" and f2: "(3::nat) < 4" by simp_all
  have root: "CWK_STYLE_UNIX = CWK_STYLE_UNIX \<or> get_root CWK_STYLE_UNIX ''a/./b/../c'' \<noteq> 0 \<or>
       get_root CWK_STYLE_UNIX (map (fst ?res) [0..<3]) = 0" by simp
  from normalize_idempotent_when_root_is_kept[OF r f1 root f2, of "\<lambda>_. CHR ''+''"]
  show ?thesis unfolding out using len by simp
qed

text \<open>
  The claim as stated fails in Windows style on a path without a root whose first
  surviving segment reads as a drive: \<open>./C:.\<close> is normalised to \<open>C:.\<close>, where \<open>C:\<close> is now
  a root and the segment \<open>.\<close> behind it is removed by the second call.
\<close>

theorem normalize_twice_differs_on_drive_segment:
  "snd (normalize CWK_STYLE_WINDOWS ''./C:.'' (\<lambda>_. CHR ''#'') 8) = 3 \<and>
   map (fst (normalize CWK_STYLE_WINDOWS ''./C:.'' (\<lambda>_. CHR ''#'') 8)) [0..<3] = ''C:.'' \<and>
   snd (normalize CWK_STYLE_WINDOWS ''C:.'' (\<lambda>_. CHR ''#'') 8) = 2 \<and>
   map (fst (normalize CWK_STYLE_WINDOWS ''C:.'' (\<lambda>_. CHR ''#'') 8)) [0..<2] = ''C:''"
proof (intro conjI)
  show "snd (normalize CWK_STYLE_WINDOWS ''./C:.'' (\<lambda>_. CHR ''#'') 8) = 3" by code_simp
  show "map (fst (normalize CWK_STYLE_WINDOWS ''./C:.'' (\<lambda>_. CHR ''#'') 8)) [0..<3] = ''C:.''"
    by code_simp
  show "snd (normalize CWK_STYLE_WINDOWS ''C:.'' (\<lambda>_. CHR ''#'') 8) = 2" by code_simp
  show "map (fst (normalize CWK_STYLE_WINDOWS ''C:.'' (\<lambda>_. CHR ''#'') 8)) [0..<2] = ''C:''"
    by code_simp
qed

section \<open>A stream on which the counter wraps\<close>

text \<open>
  The path \<open>x/a/a/.../a/..\<close> with \<open>k\<close> segments \<open>a\<close>.
\<close>

definition long_path :: "nat \<Rightarrow> string" where
  "long_path k = join_words CHR ''/'' False (''x'' # replicate k ''a'' @ [''..''])"

lemma walk_forward_normals:
  "walk_forward c (replicate k CWK_NORMAL @ ts) = walk_forward (c + of_nat k) ts"
  by (induction k arbitrary: c) (simp_all add: algebra_simps)

lemma count_list_replicate_same: "count_list (replicate n x) x = n"
  by (induction n) simp_all

lemma spec_counter_normals_back:
  assumes "1 \<le> k"
  shows "0 \<le> spec_counter (replicate k CWK_NORMAL @ [CWK_BACK]) n"
proof (cases "n \<le> k")
  case True
  then have "take n (replicate k CWK_NORMAL @ [CWK_BACK]) = replicate n CWK_NORMAL"
    by (simp add: min_def)
  then show ?thesis by (simp add: spec_counter_def count_list_replicate_same count_notin)
next
  case False
  then have "take n (replicate k CWK_NORMAL @ [CWK_BACK]) = replicate k CWK_NORMAL @ [CWK_BACK]"
    by simp
  then show ?thesis
    using assms by (simp add: spec_counter_def count_list_replicate_same count_notin)
qed

lemma long_path_stream:
  fixes k :: nat
  defines "sj \<equiv> all_joined CWK_STYLE_UNIX [long_path k] ! 0"
  shows "get_segment_type (sj_segment sj) = CWK_NORMAL"
    "types_before CWK_STYLE_UNIX sj = []"
    "types_after CWK_STYLE_UNIX sj = replicate k CWK_NORMAL @ [CWK_BACK]"
proof -
  let ?st = CWK_STYLE_UNIX
  let ?W = "''x'' # replicate k ''a'' @ [''..'']"
  let ?p = "long_path k"
  let ?J = "all_joined ?st [?p]"
  have sep: "first_separator ?st = CHR ''/''" by (simp add: first_separator_def)
  have ok: "\<forall>w\<in>set ?W. word_ok ?st w"
    by (auto simp: word_ok_def is_separator_def NUL_def)
  have p: "?p = [] @ join_words (first_separator ?st) False ?W"
    by (simp add: long_path_def sep)
  have "char_at ?p 0 = CHR ''x''" by (simp add: long_path_def)
  then have r: "get_root ?st ?p = 0"
    by (simp add: get_root_def get_root_unix_def is_separator_def)
  have w: "words ?st ?p = ?W"
    using segments_from_words[OF ok, of "[]"] unfolding p[symmetric]
    by (simp add: words_def all_segments_def r)
  have tx: "map sj_text ?J = ?W" using w by (simp add: joined_words_single)
  have ty: "map sj_type ?J = map text_type ?W"
    using joined_types[OF rootless_tail_single, of ?st ?p] by (simp only: tx)
  have tt: "map text_type ?W = CWK_NORMAL # replicate k CWK_NORMAL @ [CWK_BACK]"
    by (simp add: text_type_def)
  have len: "0 < length ?J" using tx by (metis length_greater_0_conv list.simps(3) map_is_Nil_conv)
  have "sj_type (?J ! 0) = map sj_type ?J ! 0" using len by simp
  then show "get_segment_type (sj_segment sj) = CWK_NORMAL"
    unfolding sj_def by (simp only: ty tt) (simp add: sj_type_def)
  show "types_before ?st sj = []"
    unfolding sj_def using types_before_at[OF rootless_tail_single len] by simp
  have "types_after ?st (?J ! 0) = drop 1 (map sj_type ?J)"
    using types_after_at[OF len] by (simp add: drop_map)
  then show "types_after ?st sj = replicate k CWK_NORMAL @ [CWK_BACK]"
    unfolding sj_def by (simp only: ty tt) simp
qed

lemma long_path_removed:
  assumes "sint (of_nat k - 1 :: c_int) < 0"
  shows "segment_will_be_removed CWK_STYLE_UNIX
           (all_joined CWK_STYLE_UNIX [long_path k] ! 0) False"
  unfolding segment_will_be_removed_walk long_path_stream
  using assms by (simp add: walk_forward_normals)

lemma long_path_rule:
  assumes "1 \<le> k"
  shows "\<not> spec_elided False CWK_NORMAL [] (replicate k CWK_NORMAL @ [CWK_BACK])"
  using spec_counter_normals_back[OF assms]
  by (auto simp: spec_elided_def spec_normal_elided_def not_less)

text \<open>
  The claim as stated fails on a stream of \<open>2^31 + 3\<close> segments: in
  \<open>x/a/.../a/..\<close> with \<open>2^31 + 1\<close> segments \<open>a\<close>, the counter of the forward walk from \<open>x\<close>
  has wrapped to a negative value when it reaches the Back segment, so the resolver
  elides \<open>x\<close>, while the counter of the rule stands at \<open>2^31\<close> there and never goes negative.
\<close>

theorem counter_wraps_on_long_stream:
  "get_segment_type
     (sj_segment (all_joined CWK_STYLE_UNIX [long_path (2 ^ 31 + 1)] ! 0)) = CWK_NORMAL \<and>
   types_before CWK_STYLE_UNIX (all_joined CWK_STYLE_UNIX [long_path (2 ^ 31 + 1)] ! 0) = [] \<and>
   types_after CWK_STYLE_UNIX (all_joined CWK_STYLE_UNIX [long_path (2 ^ 31 + 1)] ! 0) =
     replicate (2 ^ 31 + 1) CWK_NORMAL @ [CWK_BACK] \<and>
   segment_will_be_removed CWK_STYLE_UNIX
     (all_joined CWK_STYLE_UNIX [long_path (2 ^ 31 + 1)] ! 0) False \<and>
   \<not> spec_elided False CWK_NORMAL [] (replicate (2 ^ 31 + 1) CWK_NORMAL @ [CWK_BACK])"
proof -
  have n1: "sint (of_nat (2 ^ 31 + 1) - 1 :: c_int) < 0" by simp
  have n2: "1 \<le> (2 ^ 31 + 1 :: nat)" by simp
  show ?thesis
    by (intro conjI long_path_stream long_path_removed[OF n1] long_path_rule[OF n2])
qed

section \<open>Calls in place\<close>

text \<open>
  \<open>normalize\<close> may be called with the path itself as the buffer (``The path may be the
  same memory address as the buffer''). Then every read of the path is a read of the
  memory as the writes so far have left it. \<open>view mem extent\<close> is the string a pointer to
  the start of the memory reads, \<open>extent\<close> being the size of the storage that holds the
  path and its terminator; \<open>repoint\<close> lets the pointers of a joined segment, which are
  offsets, read the memory in its present state.
\<close>

definition view :: "buffer \<Rightarrow> nat \<Rightarrow> string" where
  "view mem extent = map mem [0..<extent]"

definition repoint :: "string \<Rightarrow> cwk_segment_joined \<Rightarrow> cwk_segment_joined" where
  "repoint p sj = sj\<lparr>sj_segment := (sj_segment sj)\<lparr>seg_path := p\<rparr>, sj_paths := [p]\<rparr>"

text \<open>The loop body of \<open>join_and_normalize_multiple\<close> when \<open>paths[0] == buffer\<close>.\<close>

definition join_body_in_place ::
  "cwk_path_style \<Rightarrow> cwk_segment_joined \<Rightarrow> bool \<Rightarrow> buffer \<Rightarrow> nat \<Rightarrow> nat \<Rightarrow> nat \<Rightarrow> bool
     \<Rightarrow> buffer \<times> nat \<times> bool" where
  "join_body_in_place st sj absolute mem extent buffer_size pos has_segment_output =
     (if segment_will_be_removed st (repoint (view mem extent) sj) absolute
      then (mem, pos, has_segment_output)
      else
        let (mem, pos) =
              (if has_segment_output
               then (let (b, n) = output_separator st mem buffer_size pos
                     in (b, pos + n))
               else (mem, pos));
            (b, n) = output_sized mem buffer_size pos
                       (view mem extent) (seg_begin (sj_segment sj))
                       (seg_size (sj_segment sj))
        in (b, pos + n, True))"

function join_loop_in_place ::
  "cwk_path_style \<Rightarrow> cwk_segment_joined \<Rightarrow> bool \<Rightarrow> buffer \<Rightarrow> nat \<Rightarrow> nat \<Rightarrow> nat \<Rightarrow> bool
     \<Rightarrow> buffer \<times> nat \<times> bool" where
  "join_loop_in_place st sj absolute mem extent buffer_size pos has_segment_output =
     (case join_body_in_place st sj absolute mem extent buffer_size pos has_segment_output of
        (mem, pos, has_segment_output) \<Rightarrow>
          (case get_next_segment_joined st (repoint (view mem extent) sj) of
             (True, sj') \<Rightarrow>
               join_loop_in_place st sj' absolute mem extent buffer_size pos has_segment_output
           | (False, sj') \<Rightarrow> (mem, pos, has_segment_output)))"
  by pat_completeness auto
termination
  apply (relation "inv_image (less_than <*lex*> less_than)
        (\<lambda>(st, sj, a, mem, extent, n, p, h).
           (1 - sj_path_index sj,
            extent - (seg_begin (sj_segment sj) + seg_size (sj_segment sj))))")
   apply (intro wf_inv_image wf_lex_prod wf_less_than)
  apply (auto dest!: get_next_segment_joined_progress[OF sym] simp: repoint_def view_def)
  done

declare join_loop_in_place.simps [simp del]

definition normalize_in_place ::
  "cwk_path_style \<Rightarrow> buffer \<Rightarrow> nat \<Rightarrow> nat \<Rightarrow> buffer \<times> nat" where
  "normalize_in_place st mem extent buffer_size =
     (let pos = get_root st (view mem extent);
          absolute = is_root_absolute st (view mem extent) pos;
          (mem, n) = output_sized mem buffer_size 0 (view mem extent) 0 pos
      in case get_first_segment_joined st [view mem extent] uninitialized_sj of
           (False, sj) \<Rightarrow> (terminate_output mem buffer_size pos, pos)
         | (True, sj) \<Rightarrow>
             let (mem, pos, has_segment_output) =
                   join_loop_in_place st sj absolute mem extent buffer_size pos False;
                 (mem, pos) =
                   (if \<not> has_segment_output \<and> pos = 0
                    then (let (b, n) = output_current mem buffer_size pos in (b, pos + n))
                    else (mem, pos))
             in (terminate_output mem buffer_size pos, pos))"

text \<open>
  Claim C6. The returned length does not depend on the capacity, and a call with
  capacity 0 returns the length a call with unbounded capacity returns. The code breaks
  this on a call it documents as legal: \<open>normalize\<close> in place on \<open>./../..\<close> returns 2 when
  the capacity is 8 (the memory then holds \<open>..\<close>) and 5 when the capacity is 0. With a
  capacity the first \<open>..\<close> is moved to the front, the memory reads \<open>..../..\<close>, and the walk
  backward from the last \<open>..\<close> meets the four dots as one Normal segment that cancels it.
  On a buffer apart from the path the call returns 5 and writes \<open>../..\<close>.
\<close>

theorem normalize_in_place_depends_on_capacity:
  "snd (normalize_in_place CWK_STYLE_UNIX (char_at ''./../..'') 8 8) = 2 \<and>
   view (fst (normalize_in_place CWK_STYLE_UNIX (char_at ''./../..'') 8 8)) 3 =
     [CHR ''.'', CHR ''.'', NUL] \<and>
   snd (normalize_in_place CWK_STYLE_UNIX (char_at ''./../..'') 8 0) = 5 \<and>
   snd (normalize CWK_STYLE_UNIX ''./../..'' (\<lambda>_. CHR ''#'') 8) = 5 \<and>
   map (fst (normalize CWK_STYLE_UNIX ''./../..'' (\<lambda>_. CHR ''#'') 8)) [0..<5] = ''../..''"
proof (intro conjI)
  show "snd (normalize_in_place CWK_STYLE_UNIX (char_at ''./../..'') 8 8) = 2" by code_simp
  show "view (fst (normalize_in_place CWK_STYLE_UNIX (char_at ''./../..'') 8 8)) 3 =
     [CHR ''.'', CHR ''.'', NUL]" by code_simp
  show "snd (normalize_in_place CWK_STYLE_UNIX (char_at ''./../..'') 8 0) = 5" by code_simp
  show "snd (normalize CWK_STYLE_UNIX ''./../..'' (\<lambda>_. CHR ''#'') 8) = 5" by code_simp
  show "map (fst (normalize CWK_STYLE_UNIX ''./../..'' (\<lambda>_. CHR ''#'') 8)) [0..<5] = ''../..''"
    by code_simp
qed

section \<open>The walk of \<open>get_relative\<close> over two streams\<close>










section \<open>What \<open>get_relative\<close> writes\<close>




section \<open>The string \<open>get_relative\<close> produces\<close>







section \<open>Kept words of an absolute stream, from right to left\<close>













section \<open>Comparing segments in Unix style\<close>


section \<open>From a relative path back to the target\<close>









end
